theory Spec2Isabelle
  imports Main "HOL-Library.Char_ord"
begin

unbundle bit_operations_syntax

section \<open>Data model\<close>

text \<open>
  JavaScript strings are modelled as lists of 8-bit characters, BigInt values as
  \<^typ>\<open>int\<close> (shifts and masks on \<^typ>\<open>int\<close> are the two's-complement ones of
  BigInt), and every \<^verbatim>\<open>throw\<close> as the left injection of a sum type.
\<close>

datatype IPVersion = V4 | V6

datatype error = InvalidIPAddressError | TypeError | RangeError

text \<open>\<^verbatim>\<open>BITS\<close> and \<^verbatim>\<open>MAX_IP\<close> of constants.ts.\<close>

fun BITS :: "IPVersion \<Rightarrow> int" where
  "BITS V4 = 32"
| "BITS V6 = 128"

fun MAX_IP :: "IPVersion \<Rightarrow> int" where
  "MAX_IP V4 = 0xffffffff"
| "MAX_IP V6 = 0xffffffffffffffffffffffffffffffff"

section \<open>String primitives of the host language\<close>

text \<open>\<^verbatim>\<open>s.includes(c)\<close> for a one-character needle.\<close>

definition includes_char :: "string \<Rightarrow> char \<Rightarrow> bool" where
  "includes_char s c = (c \<in> set s)"

text \<open>\<^verbatim>\<open>s.split(sep)\<close> for a one-character separator: the empty string splits
  into one empty part, and adjacent separators give empty parts.\<close>

fun split :: "char \<Rightarrow> string \<Rightarrow> string list" where
  "split sep [] = [[]]"
| "split sep (c # cs) =
     (if c = sep then [] # split sep cs
      else (case split sep cs of [] \<Rightarrow> [[c]] | p # ps \<Rightarrow> (c # p) # ps))"

text \<open>\<^verbatim>\<open>parts.join(sep)\<close>.\<close>

fun join :: "string \<Rightarrow> string list \<Rightarrow> string" where
  "join sep [] = []"
| "join sep [p] = p"
| "join sep (p # q # ps) = p @ sep @ join sep (q # ps)"

text \<open>\<^verbatim>\<open>s.padStart(n, c)\<close>.\<close>

definition padStart :: "nat \<Rightarrow> char \<Rightarrow> string \<Rightarrow> string" where
  "padStart n c s = replicate (n - length s) c @ s"

text \<open>Digits of \<^verbatim>\<open>BigInt.prototype.toString(radix)\<close>, lowercase.\<close>

definition digit_char :: "nat \<Rightarrow> char" where
  "digit_char d = ''0123456789abcdef'' ! d"

function digits :: "nat \<Rightarrow> nat \<Rightarrow> string" where
  "digits b n = (if b < 2 \<or> n < b then [digit_char n]
                 else digits b (n div b) @ [digit_char (n mod b)])"
  by pat_completeness auto
termination
  by (relation "measure (\<lambda>(b, n). n)") auto

declare digits.simps [simp del]

definition toString :: "nat \<Rightarrow> int \<Rightarrow> string" where
  "toString radix n = (if n < 0 then CHR ''-'' # digits radix (nat (- n)) else digits radix (nat n))"

section \<open>Integer codec: rendering\<close>

text \<open>The scan of \<^verbatim>\<open>compressIPv6\<close>: \<open>longest\<close> and \<open>current\<close> are the two
  nullable index sets, kept in insertion order.\<close>

fun compress_step :: "(nat list option \<times> nat list option) \<Rightarrow> (nat \<times> string) \<Rightarrow> (nat list option \<times> nat list option)" where
  "compress_step (longest, current) (i, part) =
     (if part = ''0'' then
        (longest, Some ((case current of None \<Rightarrow> [] | Some c \<Rightarrow> c) @ [i]))
      else (case current of
              None \<Rightarrow> (longest, current)
            | Some c \<Rightarrow>
                ((case longest of
                    None \<Rightarrow> Some c
                  | Some l \<Rightarrow> if length c > length l then Some c else Some l),
                 None)))"

definition compress_scan :: "string list \<Rightarrow> nat list option" where
  "compress_scan parts =
     (case foldl compress_step (None, None) (zip [0..<length parts] parts) of
        (None, Some c) \<Rightarrow> Some c
      | (None, None) \<Rightarrow> None
      | (Some l, None) \<Rightarrow> Some l
      | (Some l, Some c) \<Rightarrow> if length c > length l then Some c else Some l)"

text \<open>\<^verbatim>\<open>s.replace(/:{2,}/, '::')\<close>: the leftmost run of two or more colons is
  replaced, once.\<close>

fun replace_colons :: "string \<Rightarrow> string" where
  "replace_colons (a # b # cs) =
     (if a = CHR '':'' \<and> b = CHR '':'' then '':'' @ '':'' @ dropWhile (\<lambda>c. c = CHR '':'') cs
      else a # replace_colons (b # cs))"
| "replace_colons cs = cs"

definition compressIPv6 :: "string list \<Rightarrow> string" where
  "compressIPv6 parts =
     (let marked = foldl (\<lambda>ps index. ps[index := '':''])
                     parts (case compress_scan parts of None \<Rightarrow> [] | Some l \<Rightarrow> l)
      in replace_colons (join '':'' (filter (\<lambda>p. p \<noteq> []) marked)))"

function bigIntToIp :: "int \<Rightarrow> IPVersion \<Rightarrow> bool \<Rightarrow> string" where
  "bigIntToIp number V4 compress =
     toString 10 (drop_bit 24 number AND 0xff) @ ''.'' @
     toString 10 (drop_bit 16 number AND 0xff) @ ''.'' @
     toString 10 (drop_bit 8 number AND 0xff) @ ''.'' @
     toString 10 (number AND 0xff)"
| "bigIntToIp number V6 compress =
     (if drop_bit 32 number = 0xffff then
        ''::ffff:'' @ bigIntToIp (number AND 0xffffffff) V4 True
      else
        (let parts = map (\<lambda>i. drop_bit (112 - i * 16) number AND 0xffff) [0..<8];
             to16 = map (toString 16) parts
         in if compress then compressIPv6 to16
            else join '':'' (map (padStart 4 CHR ''0'') to16)))"
  by pat_completeness auto
termination
  by (relation "measure (\<lambda>(n, v, c). case v of V4 \<Rightarrow> 0 | V6 \<Rightarrow> 1)") auto

section \<open>Validation layer: the regular expressions of constants.ts\<close>

text \<open>
  The patterns use only literals, character ranges, alternation, concatenation and
  bounded repetition. \<open>rmatches r s\<close> lists, in backtracking order, what is left of \<open>s\<close>
  after each way of matching \<open>r\<close> at its start;
  \<^verbatim>\<open>new RegExp('^' + r + '$').test(s)\<close> is \<open>rx_test r s\<close>.
\<close>

datatype rx = Eps | Chr char | Rng char char | Alt rx rx | Seq rx rx | Rep nat nat rx

fun rx_size :: "rx \<Rightarrow> nat" where
  "rx_size (Alt r1 r2) = Suc (rx_size r1 + rx_size r2)"
| "rx_size (Seq r1 r2) = Suc (rx_size r1 + rx_size r2)"
| "rx_size (Rep m n r) = Suc (n + rx_size r)"
| "rx_size r = 0"

function rmatches :: "rx \<Rightarrow> string \<Rightarrow> string list" where
  "rmatches Eps s = [s]"
| "rmatches (Chr c) s = (case s of [] \<Rightarrow> [] | x # xs \<Rightarrow> if x = c then [xs] else [])"
| "rmatches (Rng a b) s = (case s of [] \<Rightarrow> [] | x # xs \<Rightarrow> if a \<le> x \<and> x \<le> b then [xs] else [])"
| "rmatches (Alt r1 r2) s = rmatches r1 s @ rmatches r2 s"
| "rmatches (Seq r1 r2) s = concat (map (rmatches r2) (rmatches r1 s))"
| "rmatches (Rep 0 0 r) s = [s]"
| "rmatches (Rep (Suc m) 0 r) s = []"
| "rmatches (Rep 0 (Suc n) r) s = concat (map (rmatches (Rep 0 n r)) (rmatches r s)) @ [s]"
| "rmatches (Rep (Suc m) (Suc n) r) s = concat (map (rmatches (Rep m n r)) (rmatches r s))"
  by pat_completeness auto
termination
  by (relation "measure (\<lambda>(r, s). rx_size r)") auto

definition rx_test :: "rx \<Rightarrow> string \<Rightarrow> bool" where
  "rx_test r s = ([] \<in> set (rmatches r s))"

text \<open>Two syntactic analyses of a pattern, used to reason about every string it
  accepts: the characters a match may contain, and a character every match must
  contain.\<close>

fun rx_allows :: "rx \<Rightarrow> char \<Rightarrow> bool" where
  "rx_allows Eps c = False"
| "rx_allows (Chr x) c = (c = x)"
| "rx_allows (Rng a b) c = (a \<le> c \<and> c \<le> b)"
| "rx_allows (Alt r1 r2) c = (rx_allows r1 c \<or> rx_allows r2 c)"
| "rx_allows (Seq r1 r2) c = (rx_allows r1 c \<or> rx_allows r2 c)"
| "rx_allows (Rep m n r) c = rx_allows r c"

fun rx_needs :: "rx \<Rightarrow> char \<Rightarrow> bool" where
  "rx_needs Eps c = False"
| "rx_needs (Chr x) c = (c = x)"
| "rx_needs (Rng a b) c = (a = c \<and> b = c)"
| "rx_needs (Alt r1 r2) c = (rx_needs r1 c \<and> rx_needs r2 c)"
| "rx_needs (Seq r1 r2) c = (rx_needs r1 c \<or> rx_needs r2 c)"
| "rx_needs (Rep m n r) c = (0 < m \<and> rx_needs r c)"

definition seqs :: "rx list \<Rightarrow> rx" where
  "seqs rs = foldr Seq rs Eps"

definition alts :: "rx \<Rightarrow> rx list \<Rightarrow> rx" where
  "alts r rs = foldl Alt r rs"

definition IPV6_SEGMENT :: rx where
  "IPV6_SEGMENT = Rep 1 4 (Alt (Rng CHR ''0'' CHR ''9'') (Alt (Rng CHR ''A'' CHR ''F'') (Rng CHR ''a'' CHR ''f'')))"

definition IPV4_PART :: rx where
  "IPV4_PART =
     Alt (seqs [Chr CHR ''2'', Chr CHR ''5'', Rng CHR ''0'' CHR ''5''])
    (Alt (seqs [Chr CHR ''2'', Rng CHR ''0'' CHR ''4'', Rng CHR ''0'' CHR ''9''])
    (Alt (seqs [Chr CHR ''1'', Rep 2 2 (Rng CHR ''0'' CHR ''9'')])
         (seqs [Rep 0 1 (Rng CHR ''1'' CHR ''9''), Rng CHR ''0'' CHR ''9''])))"

definition IPV4_ADDRESS_PATTERN :: rx where
  "IPV4_ADDRESS_PATTERN =
     seqs [IPV4_PART, Chr CHR ''.'', IPV4_PART, Chr CHR ''.'', IPV4_PART, Chr CHR ''.'', IPV4_PART]"

definition seg_colon :: rx where
  "seg_colon = Seq IPV6_SEGMENT (Chr CHR '':'')"

definition colon_seg :: rx where
  "colon_seg = Seq (Chr CHR '':'') IPV6_SEGMENT"

definition colon2 :: rx where
  "colon2 = Seq (Chr CHR '':'') (Chr CHR '':'')"

definition IPV6_STANDARD :: rx where
  "IPV6_STANDARD = seqs [Rep 7 7 seg_colon, IPV6_SEGMENT]"
definition IPV6_COMPRESSED_1 :: rx where
  "IPV6_COMPRESSED_1 = seqs [Rep 1 7 seg_colon, Chr CHR '':'']"
definition IPV6_COMPRESSED_2 :: rx where
  "IPV6_COMPRESSED_2 = seqs [Chr CHR '':'', Rep 1 7 colon_seg]"
definition IPV6_COMPRESSED_3 :: rx where
  "IPV6_COMPRESSED_3 = seqs [Rep 1 6 seg_colon, Chr CHR '':'', IPV6_SEGMENT]"
definition IPV6_COMPRESSED_4 :: rx where
  "IPV6_COMPRESSED_4 = seqs [Rep 1 5 seg_colon, Rep 1 2 colon_seg]"
definition IPV6_COMPRESSED_5 :: rx where
  "IPV6_COMPRESSED_5 = seqs [Rep 1 4 seg_colon, Rep 1 3 colon_seg]"
definition IPV6_COMPRESSED_6 :: rx where
  "IPV6_COMPRESSED_6 = seqs [Rep 1 3 seg_colon, Rep 1 4 colon_seg]"
definition IPV6_COMPRESSED_7 :: rx where
  "IPV6_COMPRESSED_7 = seqs [Rep 1 2 seg_colon, Rep 1 5 colon_seg]"
definition IPV6_COMPRESSED_8 :: rx where
  "IPV6_COMPRESSED_8 = seqs [IPV6_SEGMENT, Chr CHR '':'', Rep 1 6 colon_seg]"
definition IPV6_COMPRESSED_9 :: rx where
  "IPV6_COMPRESSED_9 = seqs [colon2, Rep 0 5 seg_colon, IPV6_SEGMENT]"
definition IPV6_COMPRESSED_10 :: rx where
  "IPV6_COMPRESSED_10 = colon2"
definition IPV6_IPV4_MAPPED :: rx where
  "IPV6_IPV4_MAPPED =
     seqs [Alt (Rep 6 6 seg_colon)
            (Alt (seqs [colon2, Rep 0 5 seg_colon])
                 (seqs [Rep 0 5 seg_colon, colon2, Rep 0 5 seg_colon])),
           IPV4_ADDRESS_PATTERN]"

definition IPV6_COMBINED :: rx where
  "IPV6_COMBINED =
     alts IPV6_STANDARD
       [IPV6_COMPRESSED_1, IPV6_COMPRESSED_2, IPV6_COMPRESSED_3, IPV6_COMPRESSED_4,
        IPV6_COMPRESSED_5, IPV6_COMPRESSED_6, IPV6_COMPRESSED_7, IPV6_COMPRESSED_8,
        IPV6_COMPRESSED_9, IPV6_COMPRESSED_10, IPV6_IPV4_MAPPED]"

text \<open>\<^verbatim>\<open>IPv4.isValid\<close> and \<^verbatim>\<open>IPv6.isValid\<close>.\<close>

definition IPv4_isValid :: "string \<Rightarrow> bool" where
  "IPv4_isValid address = rx_test IPV4_ADDRESS_PATTERN address"

definition IPv6_isValid :: "string \<Rightarrow> bool" where
  "IPv6_isValid address =
     (if includes_char address CHR ''/'' then False else rx_test IPV6_COMBINED address)"

section \<open>Integer codec: parsing\<close>

text \<open>\<^verbatim>\<open>/^\d+$/.test(part)\<close>, and the value \<^verbatim>\<open>Number(part)\<close> or
  \<^verbatim>\<open>parseInt(part, 10)\<close> of a string of decimal digits.\<close>

definition is_digit :: "char \<Rightarrow> bool" where
  "is_digit c = (CHR ''0'' \<le> c \<and> c \<le> CHR ''9'')"

definition all_digits :: "string \<Rightarrow> bool" where
  "all_digits part = (part \<noteq> [] \<and> list_all is_digit part)"

definition digit_val :: "char \<Rightarrow> nat" where
  "digit_val c = of_char c - of_char CHR ''0''"

definition dec_value :: "string \<Rightarrow> nat" where
  "dec_value part = foldl (\<lambda>acc c. acc * 10 + digit_val c) 0 part"

text \<open>\<^verbatim>\<open>/^[0-9a-fA-F]*$/.test(part)\<close>, and \<^verbatim>\<open>Number.parseInt(part, 16)\<close> on a
  non-empty string of hexadecimal digits.\<close>

definition is_hex :: "char \<Rightarrow> bool" where
  "is_hex c = ((CHR ''0'' \<le> c \<and> c \<le> CHR ''9'') \<or> (CHR ''a'' \<le> c \<and> c \<le> CHR ''f'')
               \<or> (CHR ''A'' \<le> c \<and> c \<le> CHR ''F''))"

definition hex_val :: "char \<Rightarrow> nat" where
  "hex_val c = (if CHR ''0'' \<le> c \<and> c \<le> CHR ''9'' then of_char c - of_char CHR ''0''
                else if CHR ''a'' \<le> c \<and> c \<le> CHR ''f'' then of_char c - of_char CHR ''a'' + 10
                else of_char c - of_char CHR ''A'' + 10)"

definition hex_value :: "string \<Rightarrow> nat" where
  "hex_value part = foldl (\<lambda>acc c. acc * 16 + hex_val c) 0 part"

definition ipv4ToBigInt :: "string \<Rightarrow> error + int" where
  "ipv4ToBigInt ip =
     (let parts = split CHR ''.'' ip in
      if length parts \<noteq> 4 \<or> list_ex (\<lambda>part. \<not> all_digits part \<or> dec_value part > 255) parts
      then Inl InvalidIPAddressError
      else Inr (foldl (\<lambda>acc octet. push_bit 8 acc OR int (dec_value octet)) 0 parts))"

text \<open>\<^verbatim>\<open>parts.indexOf(x)\<close>, with \<open>None\<close> for -1.\<close>

fun indexOf :: "'a list \<Rightarrow> 'a \<Rightarrow> nat option" where
  "indexOf [] x = None"
| "indexOf (y # ys) x = (if y = x then Some 0 else map_option Suc (indexOf ys x))"

text \<open>\<^verbatim>\<open>expandIPv6Shorthand\<close>: \<^verbatim>\<open>Array(missingParts)\<close> raises a RangeError when
  \<open>missingParts = 8 - length + 1\<close> is negative.\<close>

definition expandIPv6Shorthand :: "string list \<Rightarrow> error + string list" where
  "expandIPv6Shorthand parts =
     (case indexOf parts [] of
        None \<Rightarrow> Inr parts
      | Some index \<Rightarrow>
          if 9 < length parts then Inl RangeError
          else Inr (take index parts @ replicate (9 - length parts) [] @ drop (Suc index) parts))"

text \<open>\<^verbatim>\<open>/(.+)%(.+)/.exec(ip)\<close>, first group. The dot matches anything but a line
  terminator; the first group is greedy, and the search starts at the leftmost
  position that has a match.\<close>

definition is_line_terminator :: "char \<Rightarrow> bool" where
  "is_line_terminator c = (c = CHR 0x0A \<or> c = CHR 0x0D)"

definition zone_match_at :: "string \<Rightarrow> string option" where
  "zone_match_at s =
     (let n = length (takeWhile (\<lambda>c. \<not> is_line_terminator c) s) in
      map_option (\<lambda>j. take j s)
        (find (\<lambda>j. case drop j s of
                      p # c # rest \<Rightarrow> p = CHR ''%'' \<and> \<not> is_line_terminator c
                    | _ \<Rightarrow> False)
              (rev [1..<Suc n])))"

fun zone_exec :: "string \<Rightarrow> string option" where
  "zone_exec [] = None"
| "zone_exec (c # cs) =
     (case zone_match_at (c # cs) of Some g \<Rightarrow> Some g | None \<Rightarrow> zone_exec cs)"

text \<open>\<^verbatim>\<open>/^(::ffff:)(?:(\d{1,3}\.\d{1,3}\.\d{1,3}\.\d{1,3}))$/.exec(ip)\<close>, second group.\<close>

definition DIGITS_1_3 :: rx where
  "DIGITS_1_3 = Rep 1 3 (Rng CHR ''0'' CHR ''9'')"

definition IPV4_MAPPED_LITERAL :: rx where
  "IPV4_MAPPED_LITERAL =
     seqs [Chr CHR '':'', Chr CHR '':'', Chr CHR ''f'', Chr CHR ''f'', Chr CHR ''f'', Chr CHR ''f'',
           Chr CHR '':'',
           DIGITS_1_3, Chr CHR ''.'', DIGITS_1_3, Chr CHR ''.'', DIGITS_1_3, Chr CHR ''.'', DIGITS_1_3]"

definition ipv4MappedMatch :: "string \<Rightarrow> string option" where
  "ipv4MappedMatch ip = (if rx_test IPV4_MAPPED_LITERAL ip then Some (drop 7 ip) else None)"

text \<open>The summation loop at the end of \<^verbatim>\<open>ipv6ToBigInt\<close>: the groups are read from
  the last one, each weighted by \<open>2 ^ exp\<close>, with \<open>exp\<close> growing by 16.\<close>

definition groups_to_number :: "string list \<Rightarrow> int" where
  "groups_to_number parts =
     (let r = rev (map (\<lambda>part. if part = [] then 0 else int (hex_value part)) parts)
      in fst (foldl (\<lambda>(number, exp) n. (number + n * 2 ^ exp, exp + 16)) (0, 0 :: nat) r))"

definition ipv6ToBigInt :: "string \<Rightarrow> error + int" where
  "ipv6ToBigInt ip0 =
     (case (if includes_char ip0 CHR ''%''
            then (case zone_exec ip0 of None \<Rightarrow> Inl TypeError | Some g \<Rightarrow> Inr g)
            else Inr ip0) of
        Inl e \<Rightarrow> Inl e
      | Inr ip \<Rightarrow>
          (case ipv4MappedMatch ip of
             Some ipv4Part \<Rightarrow>
               (case ipv4ToBigInt ipv4Part of
                  Inl e \<Rightarrow> Inl e
                | Inr ipv4BigInt \<Rightarrow> Inr (push_bit 32 0xffff OR ipv4BigInt))
           | None \<Rightarrow>
               (case expandIPv6Shorthand (split CHR '':'' ip) of
                  Inl e \<Rightarrow> Inl e
                | Inr parts \<Rightarrow>
                    if length parts \<noteq> 8
                       \<or> list_ex (\<lambda>part. \<not> list_all is_hex part \<or> length part > 4) parts
                    then Inl InvalidIPAddressError
                    else Inr (groups_to_number parts))))"

definition fastIpVersion :: "string \<Rightarrow> error + IPVersion" where
  "fastIpVersion probablyIp =
     (if includes_char probablyIp CHR ''.'' then Inr V4
      else if includes_char probablyIp CHR '':'' then Inr V6
      else Inl InvalidIPAddressError)"

definition ipToBigInt :: "string \<Rightarrow> IPVersion option \<Rightarrow> error + int" where
  "ipToBigInt ip version =
     (case (case version of Some v \<Rightarrow> Inr v | None \<Rightarrow> fastIpVersion ip) of
        Inl e \<Rightarrow> Inl e
      | Inr V4 \<Rightarrow> ipv4ToBigInt ip
      | Inr V6 \<Rightarrow> ipv6ToBigInt ip)"

section \<open>Address value types\<close>

text \<open>An instance holds its version and the private integer \<^verbatim>\<open>#address\<close>.\<close>

datatype IP = IPv4 int | IPv6 int

fun version :: "IP \<Rightarrow> IPVersion" where
  "version (IPv4 a) = V4"
| "version (IPv6 a) = V6"

fun toBigInt :: "IP \<Rightarrow> int" where
  "toBigInt (IPv4 a) = a"
| "toBigInt (IPv6 a) = a"

definition IPv4_new :: "string \<Rightarrow> error + IP" where
  "IPv4_new address =
     (if \<not> IPv4_isValid address then Inl InvalidIPAddressError
      else map_sum id IPv4 (ipToBigInt address (Some V4)))"

definition IPv6_new :: "string \<Rightarrow> error + IP" where
  "IPv6_new address =
     (if \<not> IPv6_isValid address then Inl InvalidIPAddressError
      else map_sum id IPv6 (ipToBigInt address (Some V6)))"

definition IPv4_fromBigInt :: "int \<Rightarrow> error + IP" where
  "IPv4_fromBigInt v = IPv4_new (bigIntToIp v V4 True)"

definition IPv6_fromBigInt :: "int \<Rightarrow> error + IP" where
  "IPv6_fromBigInt v = IPv6_new (bigIntToIp v V6 True)"

definition fromBigInt :: "IPVersion \<Rightarrow> int \<Rightarrow> error + IP" where
  "fromBigInt v n = (case v of V4 \<Rightarrow> IPv4_fromBigInt n | V6 \<Rightarrow> IPv6_fromBigInt n)"

text \<open>The getters \<^verbatim>\<open>address\<close> (both classes) and \<^verbatim>\<open>expandedAddress\<close> (IPv6).\<close>

fun address_of :: "IP \<Rightarrow> string" where
  "address_of (IPv4 a) = bigIntToIp a V4 True"
| "address_of (IPv6 a) = bigIntToIp a V6 True"

definition expandedAddress :: "int \<Rightarrow> string" where
  "expandedAddress a = bigIntToIp a V6 False"

definition IPv6_toArpa :: "int \<Rightarrow> string" where
  "IPv6_toArpa a =
     (let hex = filter (\<lambda>c. c \<noteq> CHR '':'') (expandedAddress a)
      in join ''.'' (rev (map (\<lambda>c. [c]) hex)) @ ''.ip6.arpa'')"

text \<open>The reverse name as the specification words it, to compare with \<open>IPv6_toArpa\<close>:
  the 32 lowercase hexadecimal nibbles of the address, in reversed order, joined with
  dots, followed by \<open>.ip6.arpa\<close>.\<close>

definition ip6_arpa_spec :: "int \<Rightarrow> string" where
  "ip6_arpa_spec a =
     join ''.'' (rev (map (\<lambda>i. [digit_char (nat (drop_bit (124 - 4 * i) a AND 0xf))]) [0..<32]))
     @ ''.ip6.arpa''"

definition IPv4_toArpa :: "int \<Rightarrow> string" where
  "IPv4_toArpa a =
     join ''.'' (rev (split CHR ''.'' (bigIntToIp a V4 True))) @ ''.in-addr.arpa''"

text \<open>\<^verbatim>\<open>next(count)\<close> and \<^verbatim>\<open>previous(count)\<close>.\<close>

fun ip_next :: "IP \<Rightarrow> int \<Rightarrow> error + IP" where
  "ip_next (IPv4 a) count = IPv4_fromBigInt ((a + count) AND MAX_IP V4)"
| "ip_next (IPv6 a) count = IPv6_fromBigInt ((a + count) AND MAX_IP V6)"

fun ip_previous :: "IP \<Rightarrow> int \<Rightarrow> error + IP" where
  "ip_previous (IPv4 a) count = IPv4_fromBigInt ((a - count) AND MAX_IP V4)"
| "ip_previous (IPv6 a) count = IPv6_fromBigInt ((a - count) AND MAX_IP V6)"

text \<open>Auxiliary notions for the statements below: the eight 16-bit groups of an
  integer (the loop of \<^verbatim>\<open>bigIntToIp\<close>), a group as text (one to four hexadecimal
  digits), and the occurrence of \<open>::\<close> in a string.\<close>

definition groups :: "int \<Rightarrow> int list" where
  "groups number = map (\<lambda>i. drop_bit (112 - i * 16) number AND 0xffff) [0..<8]"

definition hexword :: "string \<Rightarrow> bool" where
  "hexword w = (w \<noteq> [] \<and> list_all is_hex w \<and> length w \<le> 4)"

fun has_colon2 :: "string \<Rightarrow> bool" where
  "has_colon2 (a # b # cs) = ((a = CHR '':'' \<and> b = CHR '':'') \<or> has_colon2 (b # cs))"
| "has_colon2 cs = False"

text \<open>Validity of a literal for a given version.\<close>

definition isValid_for :: "IPVersion \<Rightarrow> string \<Rightarrow> bool" where
  "isValid_for v s = (case v of V4 \<Rightarrow> IPv4_isValid s | V6 \<Rightarrow> IPv6_isValid s)"

section \<open>CIDR value type\<close>

datatype CIDR = CIDR (cidr_address: IP) (cidr_prefix: int)

datatype candidate = Instance IP | Literal string

text \<open>\<^verbatim>\<open>parseInt(s, 10)\<close>: leading white space is skipped, one sign is read, then the
  longest run of decimal digits; \<open>None\<close> is NaN. Whatever follows the digits is
  ignored.\<close>

definition is_js_whitespace :: "char \<Rightarrow> bool" where
  "is_js_whitespace c =
     (c \<in> set [CHR 0x09, CHR 0x0A, CHR 0x0B, CHR 0x0C, CHR 0x0D, CHR 0x20, CHR 0xA0])"

definition parseInt10 :: "string \<Rightarrow> int option" where
  "parseInt10 input =
     (let s = dropWhile is_js_whitespace input;
          sign = (case s of c # cs \<Rightarrow> if c = CHR ''-'' then - 1 else 1 | [] \<Rightarrow> (1 :: int));
          s' = (case s of c # cs \<Rightarrow> if c = CHR ''-'' \<or> c = CHR ''+'' then cs else s | [] \<Rightarrow> s);
          z = takeWhile is_digit s'
      in if z = [] then None else Some (sign * int (dec_value z)))"

text \<open>The constructor. \<open>split\<close> always returns at least one part; the destructuring
  \<^verbatim>\<open>[addressPart, prefixPart]\<close> leaves \<open>prefixPart\<close> undefined when there is no
  second part, and \<^verbatim>\<open>!prefixPart\<close> holds for undefined and for the empty string.\<close>

definition CIDR_new :: "string \<Rightarrow> error + CIDR" where
  "CIDR_new cidr =
     (let parts = split CHR ''/'' cidr;
          addressPart = hd parts;
          prefixPart = (case tl parts of [] \<Rightarrow> None | p # rest \<Rightarrow> Some p)
      in case prefixPart of
           None \<Rightarrow> Inl InvalidIPAddressError
         | Some pp \<Rightarrow>
             if pp = [] then Inl InvalidIPAddressError
             else (case parseInt10 pp of
                     None \<Rightarrow> Inl InvalidIPAddressError
                   | Some prefix \<Rightarrow>
                       (case (if includes_char addressPart CHR ''.''
                              then IPv4_new addressPart else IPv6_new addressPart) of
                          Inl e \<Rightarrow> Inl e
                        | Inr address \<Rightarrow>
                            if prefix < 0 \<or> prefix > BITS (version address)
                            then Inl InvalidIPAddressError
                            else Inr (CIDR address prefix))))"

text \<open>BigInt shifts: a negative count shifts the other way.\<close>

definition shift_left :: "int \<Rightarrow> int \<Rightarrow> int" where
  "shift_left a n = (if 0 \<le> n then push_bit (nat n) a else drop_bit (nat (- n)) a)"

definition shift_right :: "int \<Rightarrow> int \<Rightarrow> int" where
  "shift_right a n = (if 0 \<le> n then drop_bit (nat n) a else push_bit (nat (- n)) a)"

definition cidr_version :: "CIDR \<Rightarrow> IPVersion" where
  "cidr_version c = version (cidr_address c)"

definition netmask :: "CIDR \<Rightarrow> error + IP" where
  "netmask c =
     (let v = cidr_version c;
          mask = shift_left (MAX_IP v) (BITS v - cidr_prefix c) AND MAX_IP v
      in fromBigInt v mask)"

definition network :: "CIDR \<Rightarrow> error + IP" where
  "network c =
     (case netmask c of
        Inl e \<Rightarrow> Inl e
      | Inr m \<Rightarrow> fromBigInt (cidr_version c) (toBigInt (cidr_address c) AND toBigInt m))"

definition broadcast :: "CIDR \<Rightarrow> error + IP" where
  "broadcast c =
     (case network c of
        Inl e \<Rightarrow> Inl e
      | Inr n \<Rightarrow>
          (let hostmask = shift_right (MAX_IP (cidr_version c)) (cidr_prefix c)
           in fromBigInt (cidr_version c) (toBigInt n OR hostmask)))"

definition first :: "CIDR \<Rightarrow> error + IP" where
  "first c =
     (if cidr_version c = V4 then
        (if cidr_prefix c \<ge> 31 then network c
         else (case network c of Inl e \<Rightarrow> Inl e | Inr n \<Rightarrow> ip_next n 1))
      else network c)"

definition last_addr :: "CIDR \<Rightarrow> error + IP" where
  "last_addr c =
     (if cidr_version c = V4 then
        (if cidr_prefix c \<ge> 31 then broadcast c
         else (case broadcast c of Inl e \<Rightarrow> Inl e | Inr b \<Rightarrow> ip_previous b 1))
      else broadcast c)"

definition contains :: "CIDR \<Rightarrow> candidate \<Rightarrow> error + bool" where
  "contains c ip =
     (case (case ip of
              Literal s \<Rightarrow> (if cidr_version c = V4 then IPv4_new s else IPv6_new s)
            | Instance a \<Rightarrow> Inr a) of
        Inl e \<Rightarrow> Inl e
      | Inr ipAddress \<Rightarrow>
          if version ipAddress \<noteq> cidr_version c then Inr False
          else (case network c of
                  Inl e \<Rightarrow> Inl e
                | Inr n \<Rightarrow>
                    (case broadcast c of
                       Inl e \<Rightarrow> Inl e
                     | Inr b \<Rightarrow>
                         Inr (toBigInt ipAddress \<ge> toBigInt n \<and> toBigInt ipAddress \<le> toBigInt b))))"

section \<open>Basic facts about the rendering primitives\<close>

lemma digit_char_simps:
  "digit_char 0 = CHR ''0''" "digit_char 1 = CHR ''1''" "digit_char 2 = CHR ''2''" "digit_char 3 = CHR ''3''"
  "digit_char 4 = CHR ''4''" "digit_char 5 = CHR ''5''" "digit_char 6 = CHR ''6''" "digit_char 7 = CHR ''7''"
  "digit_char 8 = CHR ''8''" "digit_char 9 = CHR ''9''" "digit_char 10 = CHR ''a''" "digit_char 11 = CHR ''b''"
  "digit_char 12 = CHR ''c''" "digit_char 13 = CHR ''d''" "digit_char 14 = CHR ''e''" "digit_char 15 = CHR ''f''"
  "digit_char (Suc 0) = CHR ''1''"
  by (simp_all add: digit_char_def)

lemma lt16_cases:
  "(d::nat) < 16 \<Longrightarrow> d = 0 \<or> d = 1 \<or> d = 2 \<or> d = 3 \<or> d = 4 \<or> d = 5 \<or> d = 6 \<or> d = 7
    \<or> d = 8 \<or> d = 9 \<or> d = 10 \<or> d = 11 \<or> d = 12 \<or> d = 13 \<or> d = 14 \<or> d = 15"
  by arith

lemma lt10_cases:
  "(d::nat) < 10 \<Longrightarrow> d = 0 \<or> d = 1 \<or> d = 2 \<or> d = 3 \<or> d = 4 \<or> d = 5 \<or> d = 6 \<or> d = 7
    \<or> d = 8 \<or> d = 9"
  by arith

lemma digit_char_dec:
  assumes "d < 10"
  shows "is_digit (digit_char d) \<and> digit_val (digit_char d) = d"
  using lt10_cases[OF assms]
  by (elim disjE) (simp_all add: digit_char_simps is_digit_def digit_val_def less_eq_char_def)

lemma digit_char_hex:
  assumes "d < 16"
  shows "is_hex (digit_char d) \<and> hex_val (digit_char d) = d \<and> digit_char d \<noteq> CHR '':''
   \<and> digit_char d \<noteq> CHR ''.'' \<and> CHR '':'' \<noteq> digit_char d \<and> CHR ''.'' \<noteq> digit_char d
   \<and> (digit_char d = CHR ''0'' \<longleftrightarrow> d = 0)"
  using lt16_cases[OF assms]
  by (elim disjE) (simp_all add: digit_char_simps is_hex_def hex_val_def less_eq_char_def)

lemma digits_nonempty: "digits b n \<noteq> []"
  by (subst digits.simps) simp

lemma dec_value_snoc: "dec_value (s @ [c]) = dec_value s * 10 + digit_val c"
  by (simp add: dec_value_def)

lemma hex_value_snoc: "hex_value (s @ [c]) = hex_value s * 16 + hex_val c"
  by (simp add: hex_value_def)

lemma digits10_props: "list_all is_digit (digits 10 n) \<and> dec_value (digits 10 n) = n"
proof (induction "10::nat" n rule: digits.induct)
  case (1 n)
  show ?case
  proof (cases "n < 10")
    case True
    then show ?thesis
      by (subst (1 2) digits.simps) (simp add: digit_char_dec dec_value_def)
  next
    case False
    with 1 have IH: "list_all is_digit (digits 10 (n div 10))"
      "dec_value (digits 10 (n div 10)) = n div 10"
      by auto
    have m: "n mod 10 < 10" by simp
    show ?thesis
      using False IH digit_char_dec[OF m]
      by (subst (1 2) digits.simps) (simp add: dec_value_snoc)
  qed
qed

lemma digits16_props:
  "list_all is_hex (digits 16 n) \<and> hex_value (digits 16 n) = n
   \<and> CHR '':'' \<notin> set (digits 16 n) \<and> CHR ''.'' \<notin> set (digits 16 n)"
proof (induction "16::nat" n rule: digits.induct)
  case (1 n)
  show ?case
  proof (cases "n < 16")
    case True
    then show ?thesis
      by (subst (1 2 3 4) digits.simps) (simp add: digit_char_hex hex_value_def)
  next
    case False
    with 1 have IH: "list_all is_hex (digits 16 (n div 16))"
      "hex_value (digits 16 (n div 16)) = n div 16"
      "CHR '':'' \<notin> set (digits 16 (n div 16))" "CHR ''.'' \<notin> set (digits 16 (n div 16))"
      by auto
    have m: "n mod 16 < 16" by simp
    show ?thesis
      using False IH digit_char_hex[OF m]
      by (subst (1 2 3 4) digits.simps) (simp add: hex_value_snoc)
  qed
qed

lemma digits16_length: "n < 16 ^ k \<Longrightarrow> 0 < k \<Longrightarrow> length (digits 16 n) \<le> k"
proof (induction "16::nat" n arbitrary: k rule: digits.induct)
  case (1 n)
  show ?case
  proof (cases "n < 16")
    case True
    then show ?thesis using 1(3) by (subst digits.simps) simp
  next
    case False
    obtain j where k: "k = Suc j" using 1(3) by (cases k) auto
    have "j > 0" using False 1(2) k by (cases j) auto
    moreover have "n div 16 < 16 ^ j" using 1(2) k by (simp add: less_mult_imp_div_less)
    ultimately have "length (digits 16 (n div 16)) \<le> j" using 1(1) False by simp
    then show ?thesis using False k by (subst digits.simps) simp
  qed
qed

lemma digits16_zero: "digits 16 n = ''0'' \<longleftrightarrow> n = 0"
proof (cases "n < 16")
  case True
  then show ?thesis using digit_char_hex[of n] by (subst digits.simps) simp
next
  case False
  then show ?thesis using digits_nonempty[of 16 "n div 16"] by (subst digits.simps) auto
qed

lemma digits10_no_dot: "CHR ''.'' \<notin> set (digits 10 n)"
proof -
  have "list_all is_digit (digits 10 n)" by (simp add: digits10_props)
  moreover have "\<not> is_digit CHR ''.''" by (simp add: is_digit_def less_eq_char_def)
  ultimately show ?thesis by (auto simp: list_all_iff)
qed

lemma and_ff: "(x::int) AND 0xff = x mod 256"
proof -
  have "x AND mask 8 = take_bit 8 x" by (simp add: take_bit_eq_mask)
  then show ?thesis by (simp add: mask_eq_exp_minus_1 take_bit_eq_mod)
qed

lemma and_ffff: "(x::int) AND 0xffff = x mod 65536"
proof -
  have "x AND mask 16 = take_bit 16 x" by (simp add: take_bit_eq_mask)
  then show ?thesis by (simp add: mask_eq_exp_minus_1 take_bit_eq_mod)
qed

lemma and_ffffffff: "(x::int) AND 0xffffffff = x mod 4294967296"
proof -
  have "x AND mask 32 = take_bit 32 x" by (simp add: take_bit_eq_mask)
  then show ?thesis by (simp add: mask_eq_exp_minus_1 take_bit_eq_mod)
qed

lemma and_max128: "(x::int) AND 0xffffffffffffffffffffffffffffffff = x mod 2 ^ 128"
proof -
  have "x AND mask 128 = take_bit 128 x" by (simp add: take_bit_eq_mask)
  then show ?thesis by (simp add: mask_eq_exp_minus_1 take_bit_eq_mod)
qed

lemma replicate_unfold: "replicate n c = (if n = 0 then [] else c # replicate (n - 1) c)"
  by (cases n) simp_all

lemma rmatches_Rep:
  "rmatches (Rep m n r) s =
    (if n = 0 then (if m = 0 then [s] else [])
     else if m = 0 then concat (map (rmatches (Rep 0 (n - 1) r)) (rmatches r s)) @ [s]
     else concat (map (rmatches (Rep (m - 1) (n - 1) r)) (rmatches r s)))"
  by (cases m; cases n) simp_all

text \<open>Rewrite rules that evaluate the model on concrete inputs.\<close>

lemmas render_eval =
  and_ff and_ffff and_ffffffff drop_bit_eq_div compressIPv6_def compress_scan_def toString_def
  digits.simps digit_char_def upt_conv_Cons padStart_def replicate_unfold

lemmas rx_eval =
  IPv4_isValid_def IPv6_isValid_def rx_test_def seqs_def alts_def IPV6_SEGMENT_def IPV4_PART_def
  IPV4_ADDRESS_PATTERN_def seg_colon_def colon_seg_def colon2_def IPV6_STANDARD_def
  IPV6_COMPRESSED_1_def IPV6_COMPRESSED_2_def IPV6_COMPRESSED_3_def IPV6_COMPRESSED_4_def
  IPV6_COMPRESSED_5_def IPV6_COMPRESSED_6_def IPV6_COMPRESSED_7_def IPV6_COMPRESSED_8_def
  IPV6_COMPRESSED_9_def IPV6_COMPRESSED_10_def IPV6_IPV4_MAPPED_def IPV6_COMBINED_def
  DIGITS_1_3_def IPV4_MAPPED_LITERAL_def ipv4MappedMatch_def
  includes_char_def rmatches_Rep less_eq_char_def

lemmas parse_eval =
  ipToBigInt_def ipv4ToBigInt_def ipv6ToBigInt_def expandIPv6Shorthand_def fastIpVersion_def
  all_digits_def is_digit_def dec_value_def digit_val_def is_hex_def hex_value_def hex_val_def
  zone_match_at_def is_line_terminator_def push_bit_eq_mult replicate_unfold groups_to_number_def

section \<open>The IPv4-mapped formatting shortcut\<close>

lemma padStart_hd:
  assumes "s \<noteq> []" "CHR '':'' \<notin> set s"
  shows "hd (padStart 4 CHR ''0'' s) \<noteq> CHR '':''"
proof (cases "4 - length s")
  case 0
  then show ?thesis using assms by (cases s) (auto simp: padStart_def)
next
  case (Suc k)
  then show ?thesis by (simp add: padStart_def)
qed

lemma expanded_groups_hd:
  "hd (join '':'' (map (padStart 4 CHR ''0'')
        (map (toString 16) (map (\<lambda>i. drop_bit (112 - i * 16) a AND 0xffff) [0..<8]))))
   \<noteq> CHR '':''"
proof -
  let ?g = "toString 16 (drop_bit 112 a AND 0xffff)"
  have ge: "0 \<le> drop_bit 112 a AND (0xffff::int)" by simp
  then have g: "?g = digits 16 (nat (drop_bit 112 a AND 0xffff))"
    by (simp add: toString_def)
  have ne: "?g \<noteq> []" and nc: "CHR '':'' \<notin> set ?g"
    unfolding g using digits_nonempty digits16_props by auto
  have pne: "padStart 4 CHR ''0'' ?g \<noteq> []" using ne by (simp add: padStart_def)
  have "hd (padStart 4 CHR ''0'' ?g @ rest) = hd (padStart 4 CHR ''0'' ?g)" for rest
    using pne by simp
  then show ?thesis
    using padStart_hd[OF ne nc] by (simp add: upt_conv_Cons del: toString_def)
qed

text \<open>
  Claim C10. For an IPv6 address whose top 96 bits are \<open>0x00000000000000000000ffff\<close>
  (\<open>a >> 32 = 0xffff\<close>), the \<open>expandedAddress\<close> getter returns \<open>::ffff:\<close> followed by
  the dotted decimal form of the low 32 bits; this is the same string as the compressed
  \<open>address\<close> getter, and it is not the rendering as eight zero-padded groups.
\<close>

theorem C10_mapped_expanded:
  assumes "drop_bit 32 a = (0xffff::int)"
  shows "expandedAddress a =
           ''::ffff:'' @ toString 10 (drop_bit 24 (a AND 0xffffffff) AND 0xff) @ ''.'' @
           toString 10 (drop_bit 16 (a AND 0xffffffff) AND 0xff) @ ''.'' @
           toString 10 (drop_bit 8 (a AND 0xffffffff) AND 0xff) @ ''.'' @
           toString 10 ((a AND 0xffffffff) AND 0xff)
         \<and> expandedAddress a = address_of (IPv6 a)
         \<and> expandedAddress a \<noteq>
             join '':'' (map (padStart 4 CHR ''0'')
               (map (toString 16) (map (\<lambda>i. drop_bit (112 - i * 16) a AND 0xffff) [0..<8])))"
proof -
  have e: "expandedAddress a = ''::ffff:'' @ bigIntToIp (a AND 0xffffffff) V4 True"
    using assms by (simp add: expandedAddress_def)
  have c: "address_of (IPv6 a) = ''::ffff:'' @ bigIntToIp (a AND 0xffffffff) V4 True"
    using assms by simp
  have "hd (expandedAddress a) = CHR '':''" using e by simp
  then have n: "expandedAddress a \<noteq>
             join '':'' (map (padStart 4 CHR ''0'')
               (map (toString 16) (map (\<lambda>i. drop_bit (112 - i * 16) a AND 0xffff) [0..<8])))"
    using expanded_groups_hd[of a] by metis
  have ec: "expandedAddress a = address_of (IPv6 a)" using e c by (rule trans[OF _ sym])
  show ?thesis
    apply (intro conjI)
      apply (simp only: e bigIntToIp.simps)
     apply (rule ec)
    apply (rule n)
    done
qed

theorem C10_mapped_expanded_witness:
  "drop_bit 32 (281473913979137::int) = 0xffff
   \<and> expandedAddress 281473913979137 = ''::ffff:192.168.1.1''
   \<and> address_of (IPv6 281473913979137) = ''::ffff:192.168.1.1''"
proof -
  have h: "drop_bit 32 (281473913979137::int) = 0xffff" by (simp add: drop_bit_eq_div)
  have v: "''::ffff:'' @ toString 10 (drop_bit 24 ((281473913979137::int) AND 0xffffffff) AND 0xff) @ ''.'' @
           toString 10 (drop_bit 16 ((281473913979137::int) AND 0xffffffff) AND 0xff) @ ''.'' @
           toString 10 (drop_bit 8 ((281473913979137::int) AND 0xffffffff) AND 0xff) @ ''.'' @
           toString 10 (((281473913979137::int) AND 0xffffffff) AND 0xff) = ''::ffff:192.168.1.1''"
    by (simp add: render_eval)
  show ?thesis using h C10_mapped_expanded[OF h] v by simp
qed

section \<open>What every accepted literal looks like\<close>

lemma rmatches_chars:
  "x \<in> set (rmatches r s) \<Longrightarrow> \<exists>u. s = u @ x \<and> (\<forall>c\<in>set u. rx_allows r c)"
proof (induction r s arbitrary: x rule: rmatches.induct)
  case (1 s)
  then show ?case by simp
next
  case (2 c s)
  then show ?case by (cases s) (auto split: if_splits)
next
  case (3 a b s)
  then show ?case by (cases s) (auto split: if_splits)
next
  case (4 r1 r2 s)
  then show ?case by fastforce
next
  case (5 r1 r2 s)
  from 5(3) obtain y where y: "y \<in> set (rmatches r1 s)" "x \<in> set (rmatches r2 y)" by auto
  from 5(1)[OF y(1)] obtain u1 where u1: "s = u1 @ y" "\<forall>c\<in>set u1. rx_allows r1 c" by blast
  from 5(2)[OF y] obtain u2 where u2: "y = u2 @ x" "\<forall>c\<in>set u2. rx_allows r2 c" by blast
  have "s = (u1 @ u2) @ x \<and> (\<forall>c\<in>set (u1 @ u2). rx_allows (Seq r1 r2) c)"
    using u1 u2 by auto
  then show ?case by blast
next
  case (6 r s)
  then show ?case by simp
next
  case (7 m r s)
  then show ?case by simp
next
  case (8 n r s)
  show ?case
  proof (cases "x = s")
    case True
    then show ?thesis by simp
  next
    case False
    with 8(3) obtain y where y: "y \<in> set (rmatches r s)" "x \<in> set (rmatches (Rep 0 n r) y)" by auto
    from 8(1)[OF y(1)] obtain u1 where u1: "s = u1 @ y" "\<forall>c\<in>set u1. rx_allows r c" by blast
    from 8(2)[OF y] obtain u2 where u2: "y = u2 @ x" "\<forall>c\<in>set u2. rx_allows (Rep 0 n r) c" by blast
    have "s = (u1 @ u2) @ x \<and> (\<forall>c\<in>set (u1 @ u2). rx_allows (Rep 0 (Suc n) r) c)"
      using u1 u2 by auto
    then show ?thesis by blast
  qed
next
  case (9 m n r s)
  from 9(3) obtain y where y: "y \<in> set (rmatches r s)" "x \<in> set (rmatches (Rep m n r) y)" by auto
  from 9(1)[OF y(1)] obtain u1 where u1: "s = u1 @ y" "\<forall>c\<in>set u1. rx_allows r c" by blast
  from 9(2)[OF y] obtain u2 where u2: "y = u2 @ x" "\<forall>c\<in>set u2. rx_allows (Rep m n r) c" by blast
  have "s = (u1 @ u2) @ x \<and> (\<forall>c\<in>set (u1 @ u2). rx_allows (Rep (Suc m) (Suc n) r) c)"
    using u1 u2 by auto
  then show ?case by blast
qed

lemma rmatches_needs:
  "x \<in> set (rmatches r s) \<Longrightarrow> rx_needs r c \<Longrightarrow> \<exists>u. s = u @ x \<and> c \<in> set u"
proof (induction r s arbitrary: x rule: rmatches.induct)
  case (1 s)
  then show ?case by simp
next
  case (2 c' s)
  then show ?case by (cases s) (auto split: if_splits)
next
  case (3 a b s)
  then show ?case by (cases s) (auto split: if_splits simp: less_eq_char_def)
next
  case (4 r1 r2 s)
  then show ?case by fastforce
next
  case (5 r1 r2 s)
  from 5(3) obtain y where y: "y \<in> set (rmatches r1 s)" "x \<in> set (rmatches r2 y)" by auto
  from rmatches_chars[OF y(1)] obtain u1 where u1: "s = u1 @ y" by blast
  from rmatches_chars[OF y(2)] obtain u2 where u2: "y = u2 @ x" by blast
  show ?case
  proof (cases "rx_needs r1 c")
    case True
    from 5(1)[OF y(1) True] obtain v where "s = v @ y" "c \<in> set v" by blast
    then have "s = (v @ u2) @ x \<and> c \<in> set (v @ u2)" using u2 by simp
    then show ?thesis by blast
  next
    case False
    then have "rx_needs r2 c" using 5(4) by simp
    from 5(2)[OF y this] obtain v where "y = v @ x" "c \<in> set v" by blast
    then have "s = (u1 @ v) @ x \<and> c \<in> set (u1 @ v)" using u1 by simp
    then show ?thesis by blast
  qed
next
  case (6 r s)
  then show ?case by simp
next
  case (7 m r s)
  then show ?case by simp
next
  case (8 n r s)
  then show ?case by simp
next
  case (9 m n r s)
  from 9(3) obtain y where y: "y \<in> set (rmatches r s)" "x \<in> set (rmatches (Rep m n r) y)" by auto
  from rmatches_chars[OF y(2)] obtain u2 where u2: "y = u2 @ x" by blast
  have "rx_needs r c" using 9(4) by simp
  from 9(1)[OF y(1) this] obtain v where "s = v @ y" "c \<in> set v" by blast
  then have "s = (v @ u2) @ x \<and> c \<in> set (v @ u2)" using u2 by simp
  then show ?case by blast
qed

lemma rx_test_chars: "rx_test r s \<Longrightarrow> \<forall>c\<in>set s. rx_allows r c"
  using rmatches_chars[of "[]" r s] by (auto simp: rx_test_def)

lemma rx_test_needs: "rx_test r s \<Longrightarrow> rx_needs r c \<Longrightarrow> c \<in> set s"
  using rmatches_needs[of "[]" r s c] by (auto simp: rx_test_def)

lemma allows_segment: "rx_allows IPV6_SEGMENT c \<Longrightarrow> is_hex c"
  by (auto simp: IPV6_SEGMENT_def is_hex_def)

lemma allows_part: "rx_allows IPV4_PART c \<Longrightarrow> is_digit c"
  by (auto simp: IPV4_PART_def seqs_def is_digit_def less_eq_char_def)

lemma allows_v4_pattern: "rx_allows IPV4_ADDRESS_PATTERN c \<Longrightarrow> is_digit c \<or> c = CHR ''.''"
  using allows_part by (auto simp: IPV4_ADDRESS_PATTERN_def seqs_def)

lemma is_digit_is_hex: "is_digit c \<Longrightarrow> is_hex c"
  by (simp add: is_digit_def is_hex_def)

lemma allows_combined:
  "rx_allows IPV6_COMBINED c \<Longrightarrow> is_hex c \<or> c = CHR '':'' \<or> c = CHR ''.''"
  using allows_segment[of c] allows_v4_pattern[of c] is_digit_is_hex[of c]
  unfolding IPV6_COMBINED_def alts_def seqs_def seg_colon_def colon_seg_def colon2_def
    IPV6_STANDARD_def IPV6_COMPRESSED_1_def IPV6_COMPRESSED_2_def IPV6_COMPRESSED_3_def
    IPV6_COMPRESSED_4_def IPV6_COMPRESSED_5_def IPV6_COMPRESSED_6_def IPV6_COMPRESSED_7_def
    IPV6_COMPRESSED_8_def IPV6_COMPRESSED_9_def IPV6_COMPRESSED_10_def IPV6_IPV4_MAPPED_def
  by (simp only: foldl.simps foldr.simps rx_allows.simps o_apply id_apply) blast

lemma IPv4_isValid_chars:
  assumes "IPv4_isValid s"
  shows "\<forall>c\<in>set s. is_digit c \<or> c = CHR ''.''"
proof -
  have "\<forall>c\<in>set s. rx_allows IPV4_ADDRESS_PATTERN c"
    using assms rx_test_chars by (simp add: IPv4_isValid_def)
  then show ?thesis using allows_v4_pattern by blast
qed

lemma IPv6_isValid_chars:
  assumes "IPv6_isValid s"
  shows "\<forall>c\<in>set s. is_hex c \<or> c = CHR '':'' \<or> c = CHR ''.''"
proof -
  have "\<forall>c\<in>set s. rx_allows IPV6_COMBINED c"
    using assms rx_test_chars by (simp add: IPv6_isValid_def split: if_splits)
  then show ?thesis using allows_combined by blast
qed

lemma IPv6_isValid_colon:
  assumes "IPv6_isValid s"
  shows "CHR '':'' \<in> set s"
proof -
  have "rx_needs IPV6_COMBINED CHR '':''"
    unfolding rx_eval by simp
  moreover have "rx_test IPV6_COMBINED s"
    using assms by (simp add: IPv6_isValid_def split: if_splits)
  ultimately show ?thesis by (rule rx_test_needs[rotated])
qed

lemma valid_versions_disjoint: "IPv4_isValid s \<Longrightarrow> \<not> IPv6_isValid s"
proof
  assume 4: "IPv4_isValid s" and 6: "IPv6_isValid s"
  have "CHR '':'' \<in> set s" using 6 by (rule IPv6_isValid_colon)
  then have "is_digit CHR '':'' \<or> CHR '':'' = CHR ''.''" using IPv4_isValid_chars[OF 4] by blast
  then show False by (simp add: is_digit_def less_eq_char_def)
qed

section \<open>Validation against the codec\<close>

lemmas class_eval =
  IPv4_new_def IPv6_new_def IPv4_fromBigInt_def IPv6_fromBigInt_def fromBigInt_def
  CIDR_new_def parseInt10_def is_js_whitespace_def cidr_version_def

text \<open>
  Claim C2 says that validation and codec accept the same literals. They do not, in
  either direction: \<open>::fffe:1.2.3.4\<close> is valid for \<open>IPv6.isValid\<close> while the codec
  rejects it (so the constructor throws on a literal its own validator accepts), and the
  codec parses \<open>01.2.3.4\<close> and \<open>1::2::3\<close>, which validation rejects.
\<close>

theorem C2_validation_codec_mismatch:
  "IPv6_isValid ''::fffe:1.2.3.4''
   \<and> ipv6ToBigInt ''::fffe:1.2.3.4'' = Inl InvalidIPAddressError
   \<and> IPv6_new ''::fffe:1.2.3.4'' = Inl InvalidIPAddressError
   \<and> \<not> IPv4_isValid ''01.2.3.4''
   \<and> ipv4ToBigInt ''01.2.3.4'' = Inr 16909060
   \<and> \<not> IPv6_isValid ''1::2::3''
   \<and> ipv6ToBigInt ''1::2::3'' = Inr 5192296858534827628530504919154691"
proof -
  have 1: "IPv6_isValid ''::fffe:1.2.3.4''" by (simp add: rx_eval)
  have 2: "ipv6ToBigInt ''::fffe:1.2.3.4'' = Inl InvalidIPAddressError"
    by (simp add: parse_eval rx_eval)
  have 3: "\<not> IPv4_isValid ''01.2.3.4''" by (simp add: rx_eval)
  have 4: "ipv4ToBigInt ''01.2.3.4'' = Inr 16909060"
    by (simp add: parse_eval less_eq_char_def)
  have 5: "\<not> IPv6_isValid ''1::2::3''" by (simp add: rx_eval)
  have 6: "ipv6ToBigInt ''1::2::3'' = Inr 5192296858534827628530504919154691"
    by (simp add: parse_eval rx_eval)
  have 7: "IPv6_new ''::fffe:1.2.3.4'' = Inl InvalidIPAddressError"
    using 1 2 by (simp add: IPv6_new_def ipToBigInt_def)
  show ?thesis using 1 2 3 4 5 6 7 by blast
qed

theorem C2_validation_codec_mismatch_witness:
  "IPv6_isValid ''::fffe:1.2.3.4'' \<and> (\<forall>v. ipv6ToBigInt ''::fffe:1.2.3.4'' \<noteq> Inr v)
   \<and> \<not> IPv4_isValid ''01.2.3.4'' \<and> (\<exists>v. ipv4ToBigInt ''01.2.3.4'' = Inr v)"
  using C2_validation_codec_mismatch by simp

section \<open>CIDR construction\<close>

text \<open>
  Claim C4 says that a bare valid address is accepted with the maximal prefix. The
  constructor rejects it: without a \<open>/\<close> there is no prefix part, and the first check
  throws. It also accepts a prefix part with trailing text, because \<open>parseInt\<close> reads
  the leading digits only.
\<close>

theorem C4_bare_address_rejected:
  "IPv4_isValid ''192.168.1.1''
   \<and> CIDR_new ''192.168.1.1'' = Inl InvalidIPAddressError
   \<and> IPv6_isValid ''2001:db8::1''
   \<and> CIDR_new ''2001:db8::1'' = Inl InvalidIPAddressError
   \<and> CIDR_new ''192.168.1.1/32'' = Inr (CIDR (IPv4 3232235777) 32)
   \<and> CIDR_new ''192.168.1.1/24abc'' = Inr (CIDR (IPv4 3232235777) 24)"
proof -
  have 1: "IPv4_isValid ''192.168.1.1''" by (simp add: rx_eval)
  have 2: "CIDR_new ''192.168.1.1'' = Inl InvalidIPAddressError" by (simp add: CIDR_new_def)
  have 3: "IPv6_isValid ''2001:db8::1''" by (simp add: rx_eval)
  have 4: "CIDR_new ''2001:db8::1'' = Inl InvalidIPAddressError" by (simp add: CIDR_new_def)
  have v: "IPv4_new ''192.168.1.1'' = Inr (IPv4 3232235777)"
    using 1 by (simp add: IPv4_new_def parse_eval less_eq_char_def)
  have 5: "CIDR_new ''192.168.1.1/32'' = Inr (CIDR (IPv4 3232235777) 32)"
    using v by (simp add: class_eval includes_char_def is_digit_def dec_value_def digit_val_def less_eq_char_def)
  have 6: "CIDR_new ''192.168.1.1/24abc'' = Inr (CIDR (IPv4 3232235777) 24)"
    using v by (simp add: class_eval includes_char_def is_digit_def dec_value_def digit_val_def less_eq_char_def)
  show ?thesis using 1 2 3 4 5 6 by blast
qed

theorem C4_bare_address_rejected_witness:
  "IPv4_isValid ''192.168.1.1'' \<and> (\<forall>c. CIDR_new ''192.168.1.1'' \<noteq> Inr c)"
  using C4_bare_address_rejected by simp

section \<open>Reverse DNS names\<close>

text \<open>
  Claim C6 says that \<open>toArpa\<close> is the reversed nibble sequence also for IPv4-mapped
  addresses. For \<open>::ffff:192.168.1.1\<close> the expanded text is the mapped form, so the
  result is built from the characters of \<open>ffff192.168.1.1\<close> and is not the name the
  specification describes.
\<close>

theorem C6_toArpa_mapped:
  "IPv6_new ''::ffff:192.168.1.1'' = Inr (IPv6 281473913979137)
   \<and> IPv6_toArpa 281473913979137 = ''1...1...8.6.1...2.9.1.f.f.f.f.ip6.arpa''
   \<and> ip6_arpa_spec 281473913979137 =
       ''1.0.1.0.8.a.0.c.f.f.f.f.0.0.0.0.0.0.0.0.0.0.0.0.0.0.0.0.0.0.0.0.ip6.arpa''"
proof -
  have 1: "IPv6_new ''::ffff:192.168.1.1'' = Inr (IPv6 281473913979137)"
    by (simp add: IPv6_new_def parse_eval rx_eval)
  have 2: "IPv6_toArpa 281473913979137 = ''1...1...8.6.1...2.9.1.f.f.f.f.ip6.arpa''"
    by (simp add: IPv6_toArpa_def expandedAddress_def render_eval)
  have f: "(x::int) AND 0xf = x mod 16" for x
  proof -
    have "x AND mask 4 = take_bit 4 x" by (simp add: take_bit_eq_mask)
    then show ?thesis by (simp add: mask_eq_exp_minus_1 take_bit_eq_mod)
  qed
  have 3: "ip6_arpa_spec 281473913979137 =
       ''1.0.1.0.8.a.0.c.f.f.f.f.0.0.0.0.0.0.0.0.0.0.0.0.0.0.0.0.0.0.0.0.ip6.arpa''"
    by (simp add: ip6_arpa_spec_def f drop_bit_eq_div upt_conv_Cons digit_char_def)
  show ?thesis using 1 2 3 by blast
qed

theorem C6_toArpa_mapped_witness:
  "IPv6_toArpa 281473913979137 \<noteq> ip6_arpa_spec 281473913979137"
  using C6_toArpa_mapped by simp

section \<open>Containment across versions\<close>

text \<open>
  Claim C5 as stated fails for literal candidates: the literal is parsed as the block's
  own version, so \<open>::1\<close> against an IPv4 block raises instead of returning false.
\<close>

theorem C5_literal_other_version_raises:
  "CIDR_new ''10.0.0.0/24'' = Inr (CIDR (IPv4 167772160) 24)
   \<and> IPv6_new ''::1'' = Inr (IPv6 1)
   \<and> contains (CIDR (IPv4 167772160) 24) (Literal ''::1'') = Inl InvalidIPAddressError"
proof -
  have v: "IPv4_new ''10.0.0.0'' = Inr (IPv4 167772160)"
    by (simp add: IPv4_new_def parse_eval rx_eval)
  have 1: "CIDR_new ''10.0.0.0/24'' = Inr (CIDR (IPv4 167772160) 24)"
    using v by (simp add: class_eval includes_char_def is_digit_def dec_value_def digit_val_def less_eq_char_def)
  have 2: "IPv6_new ''::1'' = Inr (IPv6 1)"
    by (simp add: IPv6_new_def parse_eval rx_eval)
  have "\<not> IPv4_isValid ''::1''" by (simp add: rx_eval)
  then have 3: "contains (CIDR (IPv4 167772160) 24) (Literal ''::1'') = Inl InvalidIPAddressError"
    by (simp add: contains_def cidr_version_def IPv4_new_def)
  show ?thesis using 1 2 3 by blast
qed

text \<open>
  Claim C5, amended. Let \<open>v\<close> be a version other than the block's. An address instance of
  version \<open>v\<close> is not contained, and no error is raised. A literal that is valid for
  version \<open>v\<close> is parsed as the block's own version and raises \<open>InvalidIPAddressError\<close>.
\<close>

theorem C5_contains_other_version:
  assumes "v \<noteq> cidr_version c"
  shows "(version a = v \<longrightarrow> contains c (Instance a) = Inr False)
       \<and> (isValid_for v s \<longrightarrow> contains c (Literal s) = Inl InvalidIPAddressError)"
proof (intro conjI impI)
  assume "version a = v"
  then show "contains c (Instance a) = Inr False"
    using assms by (simp add: contains_def)
next
  assume s: "isValid_for v s"
  show "contains c (Literal s) = Inl InvalidIPAddressError"
  proof (cases "cidr_version c")
    case V4
    then have "v = V6" using assms by (cases v) auto
    then have "IPv6_isValid s" using s by (simp add: isValid_for_def)
    then have "\<not> IPv4_isValid s" using valid_versions_disjoint by blast
    then show ?thesis using V4 by (simp add: contains_def IPv4_new_def)
  next
    case V6
    then have "v = V4" using assms by (cases v) auto
    then have "IPv4_isValid s" using s by (simp add: isValid_for_def)
    then have "\<not> IPv6_isValid s" using valid_versions_disjoint by blast
    then show ?thesis using V6 by (simp add: contains_def IPv6_new_def)
  qed
qed

theorem C5_contains_other_version_witness:
  "V6 \<noteq> cidr_version (CIDR (IPv4 167772160) 24)
   \<and> version (IPv6 1) = V6
   \<and> isValid_for V6 ''::1''
   \<and> contains (CIDR (IPv4 167772160) 24) (Instance (IPv6 1)) = Inr False
   \<and> contains (CIDR (IPv4 167772160) 24) (Literal ''::1'') = Inl InvalidIPAddressError"
proof -
  have h: "V6 \<noteq> cidr_version (CIDR (IPv4 167772160) 24)" by (simp add: cidr_version_def)
  have s: "isValid_for V6 ''::1''" by (simp add: isValid_for_def rx_eval)
  show ?thesis
    using h s C5_contains_other_version[OF h, of "IPv6 1" "''::1''"] by simp
qed

section \<open>Splitting and joining\<close>

lemma split_nonempty: "split sep s \<noteq> []"
  by (induction s) (auto split: list.splits)

lemma split_no_sep: "sep \<notin> set s \<Longrightarrow> split sep s = [s]"
  by (induction s) auto

lemma split_append: "sep \<notin> set a \<Longrightarrow> split sep (a @ sep # b) = a # split sep b"
  by (induction a) auto

lemma set_split: "p \<in> set (split sep s) \<Longrightarrow> set p \<subseteq> set s"
proof (induction s arbitrary: p)
  case Nil
  then show ?case by simp
next
  case (Cons c cs)
  show ?case
  proof (cases "c = sep")
    case True
    then show ?thesis using Cons by auto
  next
    case False
    obtain q qs where q: "split sep cs = q # qs"
      using split_nonempty[of sep cs] by (cases "split sep cs") auto
    then have "p = c # q \<or> p \<in> set qs" using Cons(2) False by auto
    then show ?thesis using Cons(1)[of q] Cons(1)[of p] q by auto
  qed
qed

section \<open>Composing matches\<close>

lemma rmatches_append: "x \<in> set (rmatches r s) \<Longrightarrow> x @ w \<in> set (rmatches r (s @ w))"
proof (induction r s arbitrary: x rule: rmatches.induct)
  case (1 s)
  then show ?case by simp
next
  case (2 c s)
  then show ?case by (cases s) (auto split: if_splits)
next
  case (3 a b s)
  then show ?case by (cases s) (auto split: if_splits)
next
  case (4 r1 r2 s)
  then show ?case by auto
next
  case (5 r1 r2 s)
  from 5(3) obtain y where y: "y \<in> set (rmatches r1 s)" "x \<in> set (rmatches r2 y)" by auto
  have "y @ w \<in> set (rmatches r1 (s @ w))" using 5(1)[OF y(1)] .
  moreover have "x @ w \<in> set (rmatches r2 (y @ w))" using 5(2)[OF y] .
  ultimately show ?case by auto
next
  case (6 r s)
  then show ?case by simp
next
  case (7 m r s)
  then show ?case by simp
next
  case (8 n r s)
  show ?case
  proof (cases "x = s")
    case True
    then show ?thesis by simp
  next
    case False
    with 8(3) obtain y where y: "y \<in> set (rmatches r s)" "x \<in> set (rmatches (Rep 0 n r) y)"
      by auto
    have "y @ w \<in> set (rmatches r (s @ w))" using 8(1)[OF y(1)] .
    moreover have "x @ w \<in> set (rmatches (Rep 0 n r) (y @ w))" using 8(2)[OF y] .
    ultimately show ?thesis by auto
  qed
next
  case (9 m n r s)
  from 9(3) obtain y where y: "y \<in> set (rmatches r s)" "x \<in> set (rmatches (Rep m n r) y)"
    by auto
  have "y @ w \<in> set (rmatches r (s @ w))" using 9(1)[OF y(1)] .
  moreover have "x @ w \<in> set (rmatches (Rep m n r) (y @ w))" using 9(2)[OF y] .
  ultimately show ?case by auto
qed

lemma rx_test_prefix: "rx_test r u \<Longrightarrow> w \<in> set (rmatches r (u @ w))"
  using rmatches_append[of "[]" r u w] by (simp add: rx_test_def)

lemma rx_test_Seq: "rx_test r1 u \<Longrightarrow> rx_test r2 v \<Longrightarrow> rx_test (Seq r1 r2) (u @ v)"
  using rx_test_prefix[of r1 u v] by (auto simp: rx_test_def)

lemma rx_test_Chr: "rx_test (Chr c) [c]"
  by (simp add: rx_test_def)

lemma rx_test_Eps: "rx_test Eps []"
  by (simp add: rx_test_def)

lemma rx_test_Alt1: "rx_test r1 u \<Longrightarrow> rx_test (Alt r1 r2) u"
  by (simp add: rx_test_def)

lemma rx_test_Alt2: "rx_test r2 u \<Longrightarrow> rx_test (Alt r1 r2) u"
  by (simp add: rx_test_def)

section \<open>IPv4: rendering, validity and parsing\<close>

lemma or_push:
  assumes "0 \<le> b" "b < 2 ^ m"
  shows "push_bit m (a::int) OR b = a * 2 ^ m + b"
proof -
  have "take_bit m b = b" using assms by (simp add: take_bit_int_eq_self)
  moreover have "concat_bit m b a = take_bit m b OR push_bit m a" by (simp add: concat_bit_def)
  ultimately have "b OR push_bit m a = b + push_bit m a" by (simp add: concat_bit_eq)
  then show ?thesis by (simp add: push_bit_eq_mult or.commute)
qed

lemma all_less_unfold:
  "(\<forall>k<n. P k) = (if n = 0 then True else P (n - 1) \<and> (\<forall>k<n - 1. P k))" for n :: nat
proof (cases n)
  case 0
  then show ?thesis by simp
next
  case (Suc m)
  then show ?thesis by (auto simp: less_Suc_eq)
qed

lemma octets_valid: "\<forall>k<256. rx_test IPV4_PART (digits 10 k)"
  by (simp add: all_less_unfold rx_test_def IPV4_PART_def seqs_def rmatches_Rep less_eq_char_def
      digits.simps digit_char_def)

lemma dotted_valid:
  assumes "a < 256" "b < 256" "c < 256" "d < 256"
  shows "IPv4_isValid (digits 10 a @ ''.'' @ digits 10 b @ ''.'' @ digits 10 c @ ''.'' @ digits 10 d)"
proof -
  have p: "rx_test IPV4_PART (digits 10 a)" "rx_test IPV4_PART (digits 10 b)"
    "rx_test IPV4_PART (digits 10 c)" "rx_test IPV4_PART (digits 10 d)"
    using assms octets_valid by blast+
  have 1: "rx_test (Seq IPV4_PART Eps) (digits 10 d @ [])"
    by (rule rx_test_Seq[OF p(4) rx_test_Eps])
  have 2: "rx_test (Seq (Chr CHR ''.'') (Seq IPV4_PART Eps)) (''.'' @ digits 10 d @ [])"
    by (rule rx_test_Seq[OF rx_test_Chr 1])
  have 3: "rx_test (Seq IPV4_PART (Seq (Chr CHR ''.'') (Seq IPV4_PART Eps)))
             (digits 10 c @ ''.'' @ digits 10 d @ [])"
    by (rule rx_test_Seq[OF p(3) 2])
  have 4: "rx_test (Seq (Chr CHR ''.'') (Seq IPV4_PART (Seq (Chr CHR ''.'') (Seq IPV4_PART Eps))))
             (''.'' @ digits 10 c @ ''.'' @ digits 10 d @ [])"
    by (rule rx_test_Seq[OF rx_test_Chr 3])
  have 5: "rx_test (Seq IPV4_PART (Seq (Chr CHR ''.'') (Seq IPV4_PART (Seq (Chr CHR ''.'') (Seq IPV4_PART Eps)))))
             (digits 10 b @ ''.'' @ digits 10 c @ ''.'' @ digits 10 d @ [])"
    by (rule rx_test_Seq[OF p(2) 4])
  have 6: "rx_test (Seq (Chr CHR ''.'') (Seq IPV4_PART (Seq (Chr CHR ''.'') (Seq IPV4_PART (Seq (Chr CHR ''.'') (Seq IPV4_PART Eps))))))
             (''.'' @ digits 10 b @ ''.'' @ digits 10 c @ ''.'' @ digits 10 d @ [])"
    by (rule rx_test_Seq[OF rx_test_Chr 5])
  have 7: "rx_test IPV4_ADDRESS_PATTERN
             (digits 10 a @ ''.'' @ digits 10 b @ ''.'' @ digits 10 c @ ''.'' @ digits 10 d @ [])"
    unfolding IPV4_ADDRESS_PATTERN_def seqs_def foldr.simps o_apply id_apply
    by (rule rx_test_Seq[OF p(1) 6])
  then show ?thesis by (simp add: IPv4_isValid_def)
qed

lemma dotted_split:
  "split CHR ''.'' (digits 10 a @ ''.'' @ digits 10 b @ ''.'' @ digits 10 c @ ''.'' @ digits 10 d)
   = [digits 10 a, digits 10 b, digits 10 c, digits 10 d]"
  using split_append[OF digits10_no_dot] split_no_sep[OF digits10_no_dot] by simp

lemma all_digits_digits10: "all_digits (digits 10 n)"
  by (simp add: all_digits_def digits_nonempty digits10_props)

lemma dotted_parse:
  assumes "a < 256" "b < 256" "c < 256" "d < 256"
  shows "ipv4ToBigInt (digits 10 a @ ''.'' @ digits 10 b @ ''.'' @ digits 10 c @ ''.'' @ digits 10 d)
         = Inr (((int a * 256 + int b) * 256 + int c) * 256 + int d)"
proof -
  have o: "push_bit 8 (x::int) OR int k = x * 256 + int k" if "k < 256" for x k
    using or_push[of "int k" 8 x] that by simp
  show ?thesis
    unfolding ipv4ToBigInt_def dotted_split
    using assms by (simp add: all_digits_digits10 digits10_props o)
qed

lemma bigIntToIp_V4_digits:
  "bigIntToIp n V4 c =
     digits 10 (nat (n div 16777216 mod 256)) @ ''.'' @ digits 10 (nat (n div 65536 mod 256)) @ ''.'' @
     digits 10 (nat (n div 256 mod 256)) @ ''.'' @ digits 10 (nat (n mod 256))"
proof -
  have nn: "\<not> (x::int) mod 256 < 0" for x by (simp add: not_less)
  show ?thesis by (simp add: toString_def and_ff drop_bit_eq_div nn)
qed

lemma octet_bound: "nat ((x::int) mod 256) < 256"
  by (simp add: nat_less_iff)

lemma octets_recombine:
  "((int (nat (n div 16777216 mod 256)) * 256 + int (nat (n div 65536 mod 256))) * 256
      + int (nat (n div 256 mod 256))) * 256 + int (nat (n mod 256))
   = n mod 4294967296" for n :: int
proof -
  have s: "x mod (256 * m) = 256 * (x div 256 mod m) + x mod 256" if "0 \<le> m" for x m :: int
    using that by (rule zmod_zmult2_eq)
  have "n mod 4294967296 = n mod (256 * 16777216)" by simp
  also have "\<dots> = 256 * (n div 256 mod 16777216) + n mod 256" by (rule s) simp
  also have "n div 256 mod 16777216 = n div 256 mod (256 * 65536)" by simp
  also have "\<dots> = 256 * (n div 256 div 256 mod 65536) + n div 256 mod 256" by (rule s) simp
  also have "n div 256 div 256 mod 65536 = n div 256 div 256 mod (256 * 256)" by simp
  also have "\<dots> = 256 * (n div 256 div 256 div 256 mod 256) + n div 256 div 256 mod 256"
    by (rule s) simp
  finally have e: "n mod 4294967296 =
      256 * (256 * (256 * (n div 256 div 256 div 256 mod 256) + n div 256 div 256 mod 256)
             + n div 256 mod 256) + n mod 256" .
  have d2: "n div 256 div 256 = n div 65536" by (simp add: zdiv_zmult2_eq[symmetric])
  have d3: "n div 65536 div 256 = n div 16777216" by (simp add: zdiv_zmult2_eq[symmetric])
  show ?thesis unfolding e d2 d3 by (simp add: algebra_simps)
qed

lemma ipv4_render_parse: "ipv4ToBigInt (bigIntToIp n V4 c) = Inr (n mod 4294967296)"
  unfolding bigIntToIp_V4_digits
  by (simp only: dotted_parse[OF octet_bound octet_bound octet_bound octet_bound] octets_recombine)

lemma ipv4_render_valid: "IPv4_isValid (bigIntToIp n V4 c)"
  unfolding bigIntToIp_V4_digits
  by (rule dotted_valid[OF octet_bound octet_bound octet_bound octet_bound])

lemma IPv4_fromBigInt_total: "IPv4_fromBigInt n = Inr (IPv4 (n mod 4294967296))"
  by (simp add: IPv4_fromBigInt_def IPv4_new_def ipv4_render_valid ipToBigInt_def ipv4_render_parse
      del: bigIntToIp.simps)

section \<open>IPv6: groups as text\<close>

lemma not_hex_chars:
  "\<not> is_hex CHR '':''" "\<not> is_hex CHR ''.''" "\<not> is_hex CHR ''%''" "\<not> is_hex CHR ''/''"
  "is_hex CHR ''0''" "is_hex CHR ''f''"
  by (simp_all add: is_hex_def less_eq_char_def)

lemma hexword_chars:
  assumes "hexword w"
  shows "CHR '':'' \<notin> set w" "CHR ''.'' \<notin> set w" "CHR ''%'' \<notin> set w" "CHR ''/'' \<notin> set w" "w \<noteq> []"
  using assms not_hex_chars by (auto simp: hexword_def list_all_iff)

lemma hexword_digits16: "g < 65536 \<Longrightarrow> hexword (digits 16 g)"
  using digits16_length[of g 4] by (simp add: hexword_def digits_nonempty digits16_props)

lemma hexword_pad: "hexword w \<Longrightarrow> hexword (padStart 4 CHR ''0'' w)"
  by (auto simp: hexword_def padStart_def not_hex_chars list_all_iff)

lemma hex_value_zeros: "hex_value (replicate k CHR ''0'' @ w) = hex_value w"
proof -
  have z: "hex_val CHR ''0'' = 0" by (simp add: hex_val_def less_eq_char_def)
  have "foldl (\<lambda>acc c. acc * 16 + hex_val c) 0 (replicate k CHR ''0'') = 0"
    by (induction k) (simp_all add: z)
  then show ?thesis by (simp add: hex_value_def)
qed

lemma hex_value_pad: "hex_value (padStart 4 CHR ''0'' w) = hex_value w"
  by (simp add: padStart_def hex_value_zeros)

lemma group_bounds: "0 \<le> (x::int) AND 0xffff \<and> nat (x AND 0xffff) < 65536"
  by (simp add: and_ffff nat_less_iff)

lemma toString16_group: "toString 16 (x AND 0xffff) = digits 16 (nat (x AND 0xffff))"
  using group_bounds[of x] by (simp add: toString_def)

lemma hexword_group: "hexword (toString 16 (x AND 0xffff))"
  using group_bounds[of x] by (simp add: toString16_group hexword_digits16)

lemma hex_value_group: "int (hex_value (toString 16 (x AND 0xffff))) = x AND 0xffff"
  using group_bounds[of x] by (simp add: toString16_group digits16_props)

lemma group_text_zero: "toString 16 (x AND 0xffff) = ''0'' \<longleftrightarrow> x AND 0xffff = 0"
proof -
  have "0 \<le> x AND 0xffff" by simp
  then have "nat (x AND 0xffff) = 0 \<longleftrightarrow> x AND 0xffff = 0" by linarith
  then show ?thesis by (simp only: toString16_group digits16_zero)
qed

section \<open>Joining with colons and splitting again\<close>

lemma join_Cons: "ws \<noteq> [] \<Longrightarrow> join sep (w # ws) = w @ sep @ join sep ws"
  by (cases ws) simp_all

lemma set_join: "set (join sep ws) \<subseteq> set sep \<union> \<Union> (set ` set ws)"
proof (induction ws)
  case Nil
  then show ?case by simp
next
  case (Cons w ws)
  then show ?case by (cases ws) auto
qed

lemma split_join:
  assumes "\<forall>w\<in>set ws. sep \<notin> set w" "ws \<noteq> []"
  shows "split sep (join [sep] ws) = ws"
  using assms
proof (induction ws)
  case Nil
  then show ?case by simp
next
  case (Cons w ws)
  show ?case
  proof (cases ws)
    case Nil
    then show ?thesis using Cons(2) by (simp add: split_no_sep)
  next
    case (Cons v vs)
    then have "join [sep] (w # ws) = w @ sep # join [sep] ws" by simp
    moreover have "split sep (join [sep] ws) = ws" using Cons.IH Cons.prems Cons by simp
    ultimately show ?thesis using Cons.prems by (simp add: split_append)
  qed
qed

lemma split_colon_compositional: "split sep (a @ sep # b) = split sep a @ split sep b"
proof (induction a)
  case Nil
  then show ?case by simp
next
  case (Cons c a)
  obtain p ps where p: "split sep a = p # ps"
    using split_nonempty[of sep a] by (cases "split sep a") auto
  show ?case using Cons p by auto
qed

lemma indexOf_append_first:
  "x \<notin> set pre \<Longrightarrow> indexOf (pre @ x # post) x = Some (length pre)"
  by (induction pre) auto

lemma indexOf_none: "x \<notin> set xs \<Longrightarrow> indexOf xs x = None"
  by (induction xs) auto

section \<open>IPv6: parsing colon-separated groups\<close>

lemma part_value: "(if part = [] then 0 else int (hex_value part)) = int (hex_value part)"
  by (simp add: hex_value_def)

lemma groups_to_number_cong:
  "map hex_value ps = map hex_value qs \<Longrightarrow> groups_to_number ps = groups_to_number qs"
proof -
  assume "map hex_value ps = map hex_value qs"
  then have "map int (map hex_value ps) = map int (map hex_value qs)" by simp
  then have "map (\<lambda>p. int (hex_value p)) ps = map (\<lambda>p. int (hex_value p)) qs"
    by (simp add: o_def)
  then show ?thesis by (simp add: groups_to_number_def part_value)
qed

lemma groups_to_number_8:
  "groups_to_number [a, b, c, d, e, f, g, h] =
     int (hex_value h) + int (hex_value g) * 2 ^ 16 + int (hex_value f) * 2 ^ 32
     + int (hex_value e) * 2 ^ 48 + int (hex_value d) * 2 ^ 64 + int (hex_value c) * 2 ^ 80
     + int (hex_value b) * 2 ^ 96 + int (hex_value a) * 2 ^ 112"
  by (simp add: groups_to_number_def part_value)

lemma mapped_literal_needs_dot: "rx_test IPV4_MAPPED_LITERAL s \<Longrightarrow> CHR ''.'' \<in> set s"
proof -
  have "rx_needs IPV4_MAPPED_LITERAL CHR ''.''"
    by (simp add: IPV4_MAPPED_LITERAL_def seqs_def)
  then show "rx_test IPV4_MAPPED_LITERAL s \<Longrightarrow> CHR ''.'' \<in> set s"
    by (rule rx_test_needs[rotated])
qed

lemma no_dot_not_mapped: "CHR ''.'' \<notin> set s \<Longrightarrow> ipv4MappedMatch s = None"
  using mapped_literal_needs_dot by (auto simp: ipv4MappedMatch_def)

text \<open>Once the zone and the mapped form are out of the way, \<open>ipv6ToBigInt\<close> depends
  on the parts only.\<close>

lemma ipv6ToBigInt_plain:
  assumes "CHR ''%'' \<notin> set s" "CHR ''.'' \<notin> set s"
    and "expandIPv6Shorthand (split CHR '':'' s) = Inr parts"
    and "length parts = 8" "\<forall>p\<in>set parts. list_all is_hex p \<and> length p \<le> 4"
  shows "ipv6ToBigInt s = Inr (groups_to_number parts)"
proof -
  have "\<not> list_ex (\<lambda>part. \<not> list_all is_hex part \<or> length part > 4) parts"
    using assms(5) by (auto simp: list_ex_iff)
  then show ?thesis
    using assms(1-4) by (simp add: ipv6ToBigInt_def includes_char_def no_dot_not_mapped)
qed

lemma join_char:
  assumes "c \<in> set (join sep ws)"
  shows "c \<in> set sep \<or> (\<exists>w\<in>set ws. c \<in> set w)"
proof -
  have "c \<in> set sep \<union> \<Union> (set ` set ws)" using assms set_join by blast
  then show ?thesis by blast
qed

lemma hexwords_join_chars:
  assumes "\<forall>w\<in>set ws. hexword w"
  shows "CHR ''%'' \<notin> set (join '':'' ws)" "CHR ''.'' \<notin> set (join '':'' ws)"
    "CHR ''/'' \<notin> set (join '':'' ws)"
proof -
  have k: "c \<notin> set (join '':'' ws)" if nc: "c \<noteq> CHR '':''" and nh: "\<not> is_hex c" for c
  proof
    assume "c \<in> set (join '':'' ws)"
    then have "c \<in> set '':'' \<or> (\<exists>w\<in>set ws. c \<in> set w)" by (rule join_char)
    then obtain w where "w \<in> set ws" "c \<in> set w" using nc by auto
    then have "is_hex c" using assms by (auto simp: hexword_def list_all_iff)
    then show False using nh by simp
  qed
  show "CHR ''%'' \<notin> set (join '':'' ws)" by (rule k) (simp_all add: not_hex_chars)
  show "CHR ''.'' \<notin> set (join '':'' ws)" by (rule k) (simp_all add: not_hex_chars)
  show "CHR ''/'' \<notin> set (join '':'' ws)" by (rule k) (simp_all add: not_hex_chars)
qed

lemma ipv6_parse_full:
  assumes "length ws = 8" "\<forall>w\<in>set ws. hexword w"
  shows "ipv6ToBigInt (join '':'' ws) = Inr (groups_to_number ws)"
proof -
  have ne: "ws \<noteq> []" using assms(1) by auto
  have sp: "split CHR '':'' (join '':'' ws) = ws"
    using split_join[of ws "CHR '':''"] assms(2) hexword_chars(1) ne by blast
  have "[] \<notin> set ws" using assms(2) hexword_chars(5) by blast
  then have ex: "expandIPv6Shorthand (split CHR '':'' (join '':'' ws)) = Inr ws"
    by (simp add: sp expandIPv6Shorthand_def indexOf_none)
  have "\<forall>p\<in>set ws. list_all is_hex p \<and> length p \<le> 4"
    using assms(2) by (simp add: hexword_def)
  then show ?thesis
    using ipv6ToBigInt_plain[OF hexwords_join_chars(1,2)[OF assms(2)] ex assms(1)] by blast
qed

section \<open>IPv6: the groups of an integer\<close>

lemma groups_unfold:
  "groups n = [drop_bit 112 n AND 0xffff, drop_bit 96 n AND 0xffff, drop_bit 80 n AND 0xffff,
               drop_bit 64 n AND 0xffff, drop_bit 48 n AND 0xffff, drop_bit 32 n AND 0xffff,
               drop_bit 16 n AND 0xffff, n AND 0xffff]"
  by (simp add: groups_def upt_conv_Cons)

lemma length_groups: "length (groups n) = 8"
  by (simp add: groups_def)

lemma groups_texts_hexword: "\<forall>w\<in>set (map (toString 16) (groups n)). hexword w"
  by (simp add: groups_unfold hexword_group del: toString_def)

lemma split16:
  "x mod (65536 * m) = 65536 * (x div 65536 mod m) + x mod 65536" if "0 \<le> m" for x m :: int
  using that by (rule zmod_zmult2_eq)

lemma recombine8:
  "(n AND 0xffff) + (drop_bit 16 n AND 0xffff) * 2 ^ 16 + (drop_bit 32 n AND 0xffff) * 2 ^ 32
   + (drop_bit 48 n AND 0xffff) * 2 ^ 48 + (drop_bit 64 n AND 0xffff) * 2 ^ 64
   + (drop_bit 80 n AND 0xffff) * 2 ^ 80 + (drop_bit 96 n AND 0xffff) * 2 ^ 96
   + (drop_bit 112 n AND 0xffff) * 2 ^ 112 = n mod 2 ^ 128" for n :: int
proof -
  define a1 a2 a3 a4 a5 a6 a7 where a: "a1 = n div 65536" "a2 = a1 div 65536" "a3 = a2 div 65536"
    "a4 = a3 div 65536" "a5 = a4 div 65536" "a6 = a5 div 65536" "a7 = a6 div 65536"
  have d: "drop_bit 16 n = a1" "drop_bit 32 n = a2" "drop_bit 48 n = a3" "drop_bit 64 n = a4"
    "drop_bit 80 n = a5" "drop_bit 96 n = a6" "drop_bit 112 n = a7"
    unfolding a by (simp_all add: drop_bit_eq_div zdiv_zmult2_eq[symmetric])
  have "n mod 2 ^ 128 = n mod (65536 * 2 ^ 112)" by simp
  also have "\<dots> = 65536 * (a1 mod 2 ^ 112) + n mod 65536" unfolding a by (rule split16) simp
  also have "a1 mod 2 ^ 112 = a1 mod (65536 * 2 ^ 96)" by simp
  also have "\<dots> = 65536 * (a2 mod 2 ^ 96) + a1 mod 65536" unfolding a by (rule split16) simp
  also have "a2 mod 2 ^ 96 = a2 mod (65536 * 2 ^ 80)" by simp
  also have "\<dots> = 65536 * (a3 mod 2 ^ 80) + a2 mod 65536" unfolding a by (rule split16) simp
  also have "a3 mod 2 ^ 80 = a3 mod (65536 * 2 ^ 64)" by simp
  also have "\<dots> = 65536 * (a4 mod 2 ^ 64) + a3 mod 65536" unfolding a by (rule split16) simp
  also have "a4 mod 2 ^ 64 = a4 mod (65536 * 2 ^ 48)" by simp
  also have "\<dots> = 65536 * (a5 mod 2 ^ 48) + a4 mod 65536" unfolding a by (rule split16) simp
  also have "a5 mod 2 ^ 48 = a5 mod (65536 * 2 ^ 32)" by simp
  also have "\<dots> = 65536 * (a6 mod 2 ^ 32) + a5 mod 65536" unfolding a by (rule split16) simp
  also have "a6 mod 2 ^ 32 = a6 mod (65536 * 65536)" by simp
  also have "\<dots> = 65536 * (a7 mod 65536) + a6 mod 65536" unfolding a by (rule split16) simp
  finally have e: "n mod 2 ^ 128 =
     65536 * (65536 * (65536 * (65536 * (65536 * (65536 * (65536 * (a7 mod 65536) + a6 mod 65536)
       + a5 mod 65536) + a4 mod 65536) + a3 mod 65536) + a2 mod 65536) + a1 mod 65536)
     + n mod 65536" .
  show ?thesis unfolding d and_ffff e by (simp add: algebra_simps)
qed

lemma groups_value: "groups_to_number (map (toString 16) (groups n)) = n mod 2 ^ 128"
  unfolding groups_unfold list.map groups_to_number_8 hex_value_group
  by (rule recombine8)

lemma groups_value_padded:
  "groups_to_number (map (padStart 4 CHR ''0'') (map (toString 16) (groups n))) = n mod 2 ^ 128"
proof -
  have "map hex_value (map (padStart 4 CHR ''0'') (map (toString 16) (groups n)))
        = map hex_value (map (toString 16) (groups n))"
    by (simp add: hex_value_pad o_def del: toString_def)
  then show ?thesis using groups_value groups_to_number_cong by metis
qed

section \<open>IPv6: the expanded rendering parses back\<close>

lemma bigIntToIp_V6_plain:
  assumes "drop_bit 32 n \<noteq> (0xffff::int)"
  shows "bigIntToIp n V6 False = join '':'' (map (padStart 4 CHR ''0'') (map (toString 16) (groups n)))"
    and "bigIntToIp n V6 True = compressIPv6 (map (toString 16) (groups n))"
  using assms by (simp_all add: groups_def comp_assoc del: toString_def)

lemma expanded_parse:
  assumes "drop_bit 32 n \<noteq> (0xffff::int)"
  shows "ipv6ToBigInt (bigIntToIp n V6 False) = Inr (n mod 2 ^ 128)"
proof -
  let ?ws = "map (padStart 4 CHR ''0'') (map (toString 16) (groups n))"
  have l: "length ?ws = 8" by (simp add: length_groups)
  have h: "\<forall>w\<in>set ?ws. hexword w"
    using groups_texts_hexword[of n] hexword_pad by auto
  show ?thesis
    unfolding bigIntToIp_V6_plain(1)[OF assms] ipv6_parse_full[OF l h] groups_value_padded ..
qed

section \<open>IPv6: the mapped rendering parses back\<close>

lemma digits_length: "2 \<le> b \<Longrightarrow> n < b ^ k \<Longrightarrow> 0 < k \<Longrightarrow> length (digits b n) \<le> k"
proof (induction b n arbitrary: k rule: digits.induct)
  case (1 b n)
  show ?case
  proof (cases "n < b")
    case True
    then show ?thesis using 1(4) by (subst digits.simps) simp
  next
    case False
    obtain j where k: "k = Suc j" using 1(4) by (cases k) auto
    have "j > 0" using False 1(3) k by (cases j) auto
    moreover have "n div b < b ^ j"
      using 1(3) k 1(2) by (simp add: less_mult_imp_div_less mult.commute)
    ultimately have "length (digits b (n div b)) \<le> j" using 1(1) False 1(2) by simp
    then show ?thesis using False k 1(2) by (subst digits.simps) simp
  qed
qed

lemma rx_test_Rep_chars:
  assumes "\<forall>c\<in>set w. rx_test r [c]" "m \<le> length w" "length w \<le> n"
  shows "rx_test (Rep m n r) w"
  using assms
proof (induction w arbitrary: m n)
  case Nil
  then show ?case by (cases n) (simp_all add: rx_test_def)
next
  case (Cons c w)
  obtain n' where n: "n = Suc n'" using Cons(4) by (cases n) auto
  have c: "rx_test r [c]" using Cons(2) by simp
  have rest: "rx_test (Rep (m - 1) n' r) w"
    using Cons(1)[of "m - 1" n'] Cons(2,3,4) n by simp
  have "w \<in> set (rmatches r ([c] @ w))" by (rule rx_test_prefix[OF c])
  then have "[] \<in> set (concat (map (rmatches (Rep (m - 1) n' r)) (rmatches r (c # w))))"
    using rest by (auto simp: rx_test_def)
  then show ?case unfolding n by (cases m) (simp_all add: rx_test_def)
qed

lemma octet_digits_1_3:
  assumes "k < 256"
  shows "rx_test DIGITS_1_3 (digits 10 k)"
proof -
  have "length (digits 10 k) \<le> 3" using digits_length[of 10 k 3] assms by simp
  moreover have "1 \<le> length (digits 10 k)"
    using digits_nonempty[of 10 k] by (cases "digits 10 k") auto
  moreover have "\<forall>c\<in>set (digits 10 k). rx_test (Rng CHR ''0'' CHR ''9'') [c]"
    using digits10_props[of k] by (auto simp: list_all_iff is_digit_def rx_test_def)
  ultimately show ?thesis unfolding DIGITS_1_3_def by (intro rx_test_Rep_chars) auto
qed

lemma rx_test_Seq_cons: "rx_test r v \<Longrightarrow> rx_test (Seq (Chr c) r) (c # v)"
  using rx_test_Seq[OF rx_test_Chr, of r v c] by simp

lemma mapped_literal_match:
  assumes "a < 256" "b < 256" "c < 256" "d < 256"
  shows "rx_test IPV4_MAPPED_LITERAL
           (''::ffff:'' @ digits 10 a @ ''.'' @ digits 10 b @ ''.'' @ digits 10 c @ ''.'' @ digits 10 d)"
proof -
  note p = octet_digits_1_3[OF assms(1)] octet_digits_1_3[OF assms(2)]
    octet_digits_1_3[OF assms(3)] octet_digits_1_3[OF assms(4)]
  have 1: "rx_test (Seq DIGITS_1_3 Eps) (digits 10 d @ [])"
    by (rule rx_test_Seq[OF p(4) rx_test_Eps])
  have 2: "rx_test (Seq DIGITS_1_3 (Seq (Chr CHR ''.'') (Seq DIGITS_1_3 Eps)))
             (digits 10 c @ CHR ''.'' # digits 10 d @ [])"
    by (rule rx_test_Seq[OF p(3) rx_test_Seq_cons[OF 1]])
  have 3: "rx_test (Seq DIGITS_1_3 (Seq (Chr CHR ''.'') (Seq DIGITS_1_3 (Seq (Chr CHR ''.'') (Seq DIGITS_1_3 Eps)))))
             (digits 10 b @ CHR ''.'' # digits 10 c @ CHR ''.'' # digits 10 d @ [])"
    by (rule rx_test_Seq[OF p(2) rx_test_Seq_cons[OF 2]])
  have 4: "rx_test (Seq DIGITS_1_3 (Seq (Chr CHR ''.'') (Seq DIGITS_1_3 (Seq (Chr CHR ''.'') (Seq DIGITS_1_3 (Seq (Chr CHR ''.'') (Seq DIGITS_1_3 Eps)))))))
             (digits 10 a @ CHR ''.'' # digits 10 b @ CHR ''.'' # digits 10 c @ CHR ''.'' # digits 10 d @ [])"
    by (rule rx_test_Seq[OF p(1) rx_test_Seq_cons[OF 3]])
  show ?thesis
    unfolding IPV4_MAPPED_LITERAL_def seqs_def foldr.simps o_apply id_apply
    using 4 by (simp add: rx_test_Seq_cons)
qed

lemma mapped_parse:
  assumes "drop_bit 32 n = (0xffff::int)"
  shows "ipv6ToBigInt (bigIntToIp n V6 c) = Inr n"
proof -
  let ?m = "n AND 0xffffffff"
  let ?d = "bigIntToIp ?m V4 True"
  have r: "bigIntToIp n V6 c = ''::ffff:'' @ ?d" using assms by simp
  have dd: "?d = digits 10 (nat (?m div 16777216 mod 256)) @ ''.'' @ digits 10 (nat (?m div 65536 mod 256)) @ ''.'' @
     digits 10 (nat (?m div 256 mod 256)) @ ''.'' @ digits 10 (nat (?m mod 256))"
    by (rule bigIntToIp_V4_digits)
  have chars: "\<forall>x\<in>set ?d. is_digit x \<or> x = CHR ''.''"
    using IPv4_isValid_chars[OF ipv4_render_valid] .
  have "\<not> is_digit CHR ''%''" by (simp add: is_digit_def less_eq_char_def)
  then have np: "CHR ''%'' \<notin> set (''::ffff:'' @ ?d)" using chars by auto
  have "rx_test IPV4_MAPPED_LITERAL (''::ffff:'' @ ?d)"
    unfolding dd by (rule mapped_literal_match[OF octet_bound octet_bound octet_bound octet_bound])
  then have mm: "ipv4MappedMatch (''::ffff:'' @ ?d) = Some ?d"
    by (simp add: ipv4MappedMatch_def del: bigIntToIp.simps)
  have v4: "ipv4ToBigInt ?d = Inr (?m mod 4294967296)" by (rule ipv4_render_parse)
  have m: "?m mod 4294967296 = n mod 4294967296" by (simp add: and_ffffffff)
  have b: "0 \<le> n mod 4294967296" "n mod 4294967296 < 2 ^ 32" by simp_all
  have "push_bit 32 (0xffff::int) OR n mod 4294967296 = 0xffff * 2 ^ 32 + n mod 4294967296"
    by (rule or_push[OF b])
  also have "\<dots> = (n div 2 ^ 32) * 2 ^ 32 + n mod 2 ^ 32"
    using assms by (simp add: drop_bit_eq_div)
  also have "\<dots> = n" by simp
  finally have v: "push_bit 32 (0xffff::int) OR n mod 4294967296 = n" .
  show ?thesis
    unfolding r
    using np mm v4 m v by (simp add: ipv6ToBigInt_def includes_char_def del: bigIntToIp.simps)
qed

section \<open>The scan of compressIPv6\<close>

lemma zip_upt_Suc:
  assumes "j < length ws"
  shows "zip [0..<Suc j] ws = zip [0..<j] ws @ [(j, ws ! j)]"
  using assms by (auto simp: list_eq_iff_nth_eq nth_append less_Suc_eq)

text \<open>The state of the loop after \<open>j\<close> parts: \<open>longest\<close> is a run of zero groups
  that ends at or before \<open>j\<close>, \<open>current\<close> is the run of zero groups that ends
  exactly at \<open>j\<close>, and both are null only when no part so far is \<open>0\<close>.\<close>

lemma scan_invariant:
  assumes "j \<le> length ws"
  shows "case foldl compress_step (None, None) (zip [0..<j] ws) of (lo, cu) \<Rightarrow>
           (\<forall>l. lo = Some l \<longrightarrow> (\<exists>i k. l = [i..<i + k] \<and> 1 \<le> k \<and> i + k \<le> j
                                        \<and> (\<forall>x. i \<le> x \<and> x < i + k \<longrightarrow> ws ! x = ''0'')))
         \<and> (\<forall>c. cu = Some c \<longrightarrow> (\<exists>i. c = [i..<j] \<and> i < j
                                     \<and> (\<forall>x. i \<le> x \<and> x < j \<longrightarrow> ws ! x = ''0'')))
         \<and> (lo = None \<and> cu = None \<longrightarrow> (\<forall>x<j. ws ! x \<noteq> ''0''))"
  using assms
proof (induction j)
  case 0
  then show ?case by simp
next
  case (Suc j)
  obtain lo cu where st: "foldl compress_step (None, None) (zip [0..<j] ws) = (lo, cu)"
    by (cases "foldl compress_step (None, None) (zip [0..<j] ws)")
  have jl: "j < length ws" using Suc(2) by simp
  have IH1: "\<forall>l. lo = Some l \<longrightarrow> (\<exists>i k. l = [i..<i + k] \<and> 1 \<le> k \<and> i + k \<le> j
                                        \<and> (\<forall>x. i \<le> x \<and> x < i + k \<longrightarrow> ws ! x = ''0''))"
    and IH2: "\<forall>c. cu = Some c \<longrightarrow> (\<exists>i. c = [i..<j] \<and> i < j
                                     \<and> (\<forall>x. i \<le> x \<and> x < j \<longrightarrow> ws ! x = ''0''))"
    and IH3: "lo = None \<and> cu = None \<longrightarrow> (\<forall>x<j. ws ! x \<noteq> ''0'')"
    using Suc(1) jl st by auto
  have step: "foldl compress_step (None, None) (zip [0..<Suc j] ws) = compress_step (lo, cu) (j, ws ! j)"
    by (simp only: zip_upt_Suc[OF jl] foldl_append st foldl.simps)
  have lo_mono: "\<exists>i k. l = [i..<i + k] \<and> 1 \<le> k \<and> i + k \<le> Suc j
                   \<and> (\<forall>x. i \<le> x \<and> x < i + k \<longrightarrow> ws ! x = ''0'')" if "lo = Some l" for l
  proof -
    from IH1 that obtain i k where "l = [i..<i + k]" "1 \<le> k" "i + k \<le> j"
      "\<forall>x. i \<le> x \<and> x < i + k \<longrightarrow> ws ! x = ''0''" by blast
    then have "l = [i..<i + k] \<and> 1 \<le> k \<and> i + k \<le> Suc j
                   \<and> (\<forall>x. i \<le> x \<and> x < i + k \<longrightarrow> ws ! x = ''0'')" by simp
    then show ?thesis by blast
  qed
  have cu_run: "\<exists>i k. c = [i..<i + k] \<and> 1 \<le> k \<and> i + k \<le> Suc j
                   \<and> (\<forall>x. i \<le> x \<and> x < i + k \<longrightarrow> ws ! x = ''0'')" if "cu = Some c" for c
  proof -
    from IH2 that obtain i where i: "c = [i..<j]" "i < j" "\<forall>x. i \<le> x \<and> x < j \<longrightarrow> ws ! x = ''0''"
      by blast
    then have "c = [i..<i + (j - i)] \<and> 1 \<le> j - i \<and> i + (j - i) \<le> Suc j
                   \<and> (\<forall>x. i \<le> x \<and> x < i + (j - i) \<longrightarrow> ws ! x = ''0'')" by simp
    then show ?thesis by blast
  qed
  show ?case
  proof (cases "ws ! j = ''0''")
    case True
    have new: "\<exists>i. (case cu of None \<Rightarrow> [] | Some c \<Rightarrow> c) @ [j] = [i..<Suc j] \<and> i < Suc j
                     \<and> (\<forall>x. i \<le> x \<and> x < Suc j \<longrightarrow> ws ! x = ''0'')"
    proof (cases cu)
      case None
      have "[] @ [j] = [j..<Suc j] \<and> j < Suc j \<and> (\<forall>x. j \<le> x \<and> x < Suc j \<longrightarrow> ws ! x = ''0'')"
        using True by (auto simp: less_Suc_eq)
      then show ?thesis using None by auto
    next
      case (Some c)
      from IH2 Some obtain i where i: "c = [i..<j]" "i < j" "\<forall>x. i \<le> x \<and> x < j \<longrightarrow> ws ! x = ''0''"
        by blast
      have "c @ [j] = [i..<Suc j] \<and> i < Suc j \<and> (\<forall>x. i \<le> x \<and> x < Suc j \<longrightarrow> ws ! x = ''0'')"
        using i True by (auto simp: less_Suc_eq)
      then show ?thesis using Some by auto
    qed
    show ?thesis
      unfolding step using True new lo_mono by auto
  next
    case False
    show ?thesis
    proof (cases cu)
      case None
      have "\<forall>x<Suc j. ws ! x \<noteq> ''0''" if "lo = None"
        using IH3 that None False by (auto simp: less_Suc_eq)
      then show ?thesis unfolding step using False None lo_mono by auto
    next
      case (Some c)
      show ?thesis
        unfolding step using False Some lo_mono cu_run[OF Some]
        by (cases lo) auto
    qed
  qed
qed

lemma compress_scan_cases:
  "(compress_scan ws = None \<and> ''0'' \<notin> set ws)
   \<or> (\<exists>i k. compress_scan ws = Some [i..<i + k] \<and> 1 \<le> k \<and> i + k \<le> length ws
          \<and> (\<forall>x. i \<le> x \<and> x < i + k \<longrightarrow> ws ! x = ''0''))"
proof -
  obtain lo cu where st: "foldl compress_step (None, None) (zip [0..<length ws] ws) = (lo, cu)"
    by (cases "foldl compress_step (None, None) (zip [0..<length ws] ws)")
  have inv: "(\<forall>l. lo = Some l \<longrightarrow> (\<exists>i k. l = [i..<i + k] \<and> 1 \<le> k \<and> i + k \<le> length ws
                                        \<and> (\<forall>x. i \<le> x \<and> x < i + k \<longrightarrow> ws ! x = ''0'')))"
    "(\<forall>c. cu = Some c \<longrightarrow> (\<exists>i. c = [i..<length ws] \<and> i < length ws
                                     \<and> (\<forall>x. i \<le> x \<and> x < length ws \<longrightarrow> ws ! x = ''0'')))"
    "(lo = None \<and> cu = None \<longrightarrow> (\<forall>x<length ws. ws ! x \<noteq> ''0''))"
    using scan_invariant[of "length ws" ws] st by auto
  have cu_run: "\<exists>i k. c = [i..<i + k] \<and> 1 \<le> k \<and> i + k \<le> length ws
                   \<and> (\<forall>x. i \<le> x \<and> x < i + k \<longrightarrow> ws ! x = ''0'')" if "cu = Some c" for c
  proof -
    from inv(2) that obtain i where i: "c = [i..<length ws]" "i < length ws"
      "\<forall>x. i \<le> x \<and> x < length ws \<longrightarrow> ws ! x = ''0''" by blast
    then have "c = [i..<i + (length ws - i)] \<and> 1 \<le> length ws - i \<and> i + (length ws - i) \<le> length ws
                   \<and> (\<forall>x. i \<le> x \<and> x < i + (length ws - i) \<longrightarrow> ws ! x = ''0'')" by simp
    then show ?thesis by blast
  qed
  show ?thesis
  proof (cases lo)
    case None
    show ?thesis
    proof (cases cu)
      case cuN: None
      have "''0'' \<notin> set ws" using inv(3) None cuN by (auto simp: in_set_conv_nth)
      then show ?thesis using None cuN st by (simp add: compress_scan_def)
    next
      case (Some c)
      then show ?thesis using None st cu_run[OF Some] by (simp add: compress_scan_def)
    qed
  next
    case (Some l)
    show ?thesis
    proof (cases cu)
      case None
      then show ?thesis using Some st inv(1) by (simp add: compress_scan_def)
    next
      case cuS: (Some c)
      then show ?thesis using Some st inv(1) cu_run[OF cuS] by (simp add: compress_scan_def)
    qed
  qed
qed

section \<open>The text produced by compressIPv6\<close>

lemma foldl_update_length: "length (foldl (\<lambda>ps index. ps[index := v]) ws is) = length ws"
  by (induction "is" arbitrary: ws) simp_all

lemma foldl_update_nth:
  "j < length ws \<Longrightarrow>
   foldl (\<lambda>ps index. ps[index := v]) ws is ! j = (if j \<in> set is then v else ws ! j)"
proof (induction "is" arbitrary: ws)
  case Nil
  then show ?case by simp
next
  case (Cons x xs)
  then show ?case by (auto simp: nth_list_update)
qed

lemma marked_run:
  assumes "i + k \<le> length ws"
  shows "foldl (\<lambda>ps index. ps[index := v]) ws [i..<i + k] = take i ws @ replicate k v @ drop (i + k) ws"
proof (rule nth_equalityI)
  show "length (foldl (\<lambda>ps index. ps[index := v]) ws [i..<i + k])
        = length (take i ws @ replicate k v @ drop (i + k) ws)"
    using assms by (simp add: foldl_update_length)
next
  fix j assume "j < length (foldl (\<lambda>ps index. ps[index := v]) ws [i..<i + k])"
  then have j: "j < length ws" by (simp add: foldl_update_length)
  show "foldl (\<lambda>ps index. ps[index := v]) ws [i..<i + k] ! j
        = (take i ws @ replicate k v @ drop (i + k) ws) ! j"
    using assms j by (auto simp: foldl_update_nth nth_append)
qed

lemma has_colon2_skip: "c \<noteq> CHR '':'' \<Longrightarrow> has_colon2 (c # s) = has_colon2 s"
  by (cases s) simp_all

lemma has_colon2_word: "CHR '':'' \<notin> set w \<Longrightarrow> has_colon2 (w @ s) = has_colon2 s"
proof (induction w)
  case Nil
  then show ?case by simp
next
  case (Cons a w)
  then have "a \<noteq> CHR '':''" by auto
  then have "has_colon2 (a # (w @ s)) = has_colon2 (w @ s)" by (rule has_colon2_skip)
  then show ?case using Cons by simp
qed

lemma has_colon2_colon: "has_colon2 (CHR '':'' # s) = ((s \<noteq> [] \<and> hd s = CHR '':'') \<or> has_colon2 s)"
  by (cases s) auto

lemma has_colon2_mid: "has_colon2 (u @ CHR '':'' # CHR '':'' # v)"
proof (induction u)
  case Nil
  then show ?case by simp
next
  case (Cons c u)
  then show ?case by (cases "u @ CHR '':'' # CHR '':'' # v") auto
qed

lemma join_words_no_colon2:
  assumes "\<forall>w\<in>set ws. w \<noteq> [] \<and> CHR '':'' \<notin> set w"
  shows "\<not> has_colon2 (join '':'' ws)" and "\<not> has_colon2 (join '':'' ws @ '':'')"
    and "ws \<noteq> [] \<longrightarrow> hd (join '':'' ws) \<noteq> CHR '':''"
  using assms
proof (induction ws)
  case Nil
  {
    case 1 then show ?case by simp
  next
    case 2 then show ?case by simp
  next
    case 3 then show ?case by simp
  }
next
  case (Cons w ws)
  {
    case 1
    show ?case
    proof (cases ws)
      case Nil
      then show ?thesis using 1 has_colon2_word[of w "[]"] by simp
    next
      case (Cons v vs)
      have "join '':'' (w # ws) = w @ CHR '':'' # join '':'' ws" using Cons by simp
      moreover have "join '':'' ws \<noteq> []" using Cons 1 by (cases vs) auto
      ultimately show ?thesis
        using 1 Cons.IH(1,3) Cons by (simp add: has_colon2_word has_colon2_colon)
    qed
  next
    case 2
    show ?case
    proof (cases ws)
      case Nil
      then show ?thesis using 2 has_colon2_word[of w "'':''"] by simp
    next
      case (Cons v vs)
      have "join '':'' (w # ws) = w @ CHR '':'' # join '':'' ws" using Cons by simp
      moreover have "join '':'' ws \<noteq> []" using Cons 2 by (cases vs) auto
      ultimately show ?thesis
        using 2 Cons.IH(2,3) Cons by (simp add: has_colon2_word has_colon2_colon)
    qed
  next
    case 3
    show ?case using 3 by (cases ws; cases w) auto
  }
qed

lemma replace_colons_id: "\<not> has_colon2 s \<Longrightarrow> replace_colons s = s"
  by (induction s rule: replace_colons.induct) auto

lemma dropWhile_colons:
  "v = [] \<or> hd v \<noteq> CHR '':'' \<Longrightarrow> dropWhile (\<lambda>c. c = CHR '':'') (replicate m CHR '':'' @ v) = v"
  by (induction m) (auto simp: dropWhile_eq_self_iff)

lemma replace_colons_run:
  assumes "\<not> has_colon2 (u @ '':'')" "v = [] \<or> hd v \<noteq> CHR '':''"
  shows "replace_colons (u @ replicate (Suc (Suc m)) CHR '':'' @ v) = u @ '':'' @ '':'' @ v"
  using assms(1)
proof (induction u)
  case Nil
  then show ?case using dropWhile_colons[OF assms(2)] by simp
next
  case (Cons c u)
  have c: "\<not> (c = CHR '':'' \<and> hd (u @ '':'') = CHR '':'')" and u: "\<not> has_colon2 (u @ '':'')"
    using Cons(2) by (cases "u @ '':''"; auto)+
  obtain b cs where b: "u @ replicate (Suc (Suc m)) CHR '':'' @ v = b # cs"
    by (cases "u @ replicate (Suc (Suc m)) CHR '':'' @ v") auto
  have hb: "b = hd (u @ '':'')" using b by (cases u) auto
  have nb: "\<not> (c = CHR '':'' \<and> b = CHR '':'')" using c hb by simp
  have "replace_colons (c # b # cs) = c # replace_colons (b # cs)"
    using nb by (simp only: replace_colons.simps(1) if_False)
  then show ?case using Cons(1)[OF u] b by simp
qed

lemma join_append:
  "xs \<noteq> [] \<Longrightarrow> ys \<noteq> [] \<Longrightarrow> join sep (xs @ ys) = join sep xs @ sep @ join sep ys"
proof (induction xs)
  case Nil
  then show ?case by simp
next
  case (Cons x xs)
  show ?case
  proof (cases xs)
    case Nil
    then show ?thesis using Cons(3) by (simp add: join_Cons)
  next
    case (Cons a as)
    then show ?thesis using Cons.IH Cons.prems by simp
  qed
qed

lemma join_colons: "join '':'' (replicate (Suc k) '':'') = replicate (Suc (2 * k)) CHR '':''"
  by (induction k) simp_all

lemma join_marked:
  assumes "1 \<le> k"
  shows "join '':'' (pre @ replicate k '':'' @ post)
         = join '':'' pre @ replicate (2 * k - 1 + (if pre = [] then 0 else 1) + (if post = [] then 0 else 1)) CHR '':''
           @ join '':'' post"
proof -
  obtain k' where k: "k = Suc k'" using assms by (cases k) auto
  have r: "replicate k '':'' \<noteq> []" using k by simp
  have m: "join '':'' (replicate k '':'' @ post)
           = replicate (2 * k - 1 + (if post = [] then 0 else 1)) CHR '':'' @ join '':'' post"
  proof (cases "post = []")
    case True
    then show ?thesis using join_colons[of k'] k by simp
  next
    case False
    then show ?thesis
      using join_append[OF r False, of "'':''"] join_colons[of k'] k
      by (simp add: replicate_append_same)
  qed
  show ?thesis
  proof (cases "pre = []")
    case True
    then show ?thesis using m by simp
  next
    case False
    have ne: "replicate k '':'' @ post \<noteq> []" using r by simp
    have "join '':'' (pre @ replicate k '':'' @ post)
          = join '':'' pre @ '':'' @ join '':'' (replicate k '':'' @ post)"
      by (rule join_append[OF False ne])
    then show ?thesis using m False by (simp add: replicate_append_same)
  qed
qed

text \<open>The two shapes of the compressed text: the groups joined as they are when no
  group is \<open>0\<close>, and otherwise the groups before a run of zero groups, \<open>::\<close>, and the
  groups after it.\<close>

lemma compress_form:
  assumes "length ws = 8" "\<forall>w\<in>set ws. hexword w"
  shows "(''0'' \<notin> set ws \<and> compressIPv6 ws = join '':'' ws)
       \<or> (\<exists>i k. 1 \<le> k \<and> i + k \<le> 8 \<and> (\<forall>x. i \<le> x \<and> x < i + k \<longrightarrow> ws ! x = ''0'')
             \<and> compressIPv6 ws = join '':'' (take i ws) @ ''::'' @ join '':'' (drop (i + k) ws))"
proof -
  have words: "\<forall>w\<in>set ws. w \<noteq> [] \<and> CHR '':'' \<notin> set w"
    using assms(2) hexword_chars by blast
  from compress_scan_cases[of ws]
  show ?thesis
  proof (elim disjE conjE exE)
    assume n: "compress_scan ws = None" and z: "''0'' \<notin> set ws"
    have "filter (\<lambda>p. p \<noteq> []) ws = ws" using words by (simp add: filter_id_conv)
    then have "compressIPv6 ws = replace_colons (join '':'' ws)"
      using n by (simp add: compressIPv6_def)
    then show ?thesis
      using z join_words_no_colon2(1)[OF words] replace_colons_id by simp
  next
    fix i k
    assume s: "compress_scan ws = Some [i..<i + k]" and k: "1 \<le> k" and b: "i + k \<le> length ws"
      and z: "\<forall>x. i \<le> x \<and> x < i + k \<longrightarrow> ws ! x = ''0''"
    let ?pre = "take i ws" and ?post = "drop (i + k) ws"
    let ?marked = "?pre @ replicate k '':'' @ ?post"
    have pw: "\<forall>w\<in>set ?pre. w \<noteq> [] \<and> CHR '':'' \<notin> set w"
      using words by (meson in_set_takeD)
    have qw: "\<forall>w\<in>set ?post. w \<noteq> [] \<and> CHR '':'' \<notin> set w"
      using words by (meson in_set_dropD)
    have mk: "foldl (\<lambda>ps index. ps[index := '':'']) ws [i..<i + k] = ?marked"
      by (rule marked_run[OF b])
    have "\<forall>p\<in>set ?marked. p \<noteq> []" using pw qw by auto
    then have f: "filter (\<lambda>p. p \<noteq> []) ?marked = ?marked" by (simp add: filter_id_conv)
    have c: "compressIPv6 ws = replace_colons (join '':'' ?marked)"
      using s mk f by (simp add: compressIPv6_def)
    define m where "m = 2 * k - 1 + (if ?pre = [] then 0 else 1) + (if ?post = [] then 0 else (1::nat))"
    have j: "join '':'' ?marked = join '':'' ?pre @ replicate m CHR '':'' @ join '':'' ?post"
      unfolding m_def by (rule join_marked[OF k])
    have "2 \<le> m"
    proof (cases "?pre = [] \<and> ?post = []")
      case True
      then have "i = 0" "length ws \<le> i + k" using assms(1) by auto
      then have "k = 8" using b assms(1) by simp
      then show ?thesis by (simp add: m_def)
    next
      case False
      then show ?thesis using k unfolding m_def by (cases "?pre = []"; cases "?post = []"; simp)
    qed
    then have m': "m = Suc (Suc (m - 2))" by simp
    have tail: "join '':'' ?post = [] \<or> hd (join '':'' ?post) \<noteq> CHR '':''"
      using join_words_no_colon2(3)[OF qw] by (cases "?post = []") auto
    have "replace_colons (join '':'' ?pre @ replicate (Suc (Suc (m - 2))) CHR '':'' @ join '':'' ?post)
          = join '':'' ?pre @ '':'' @ '':'' @ join '':'' ?post"
      by (rule replace_colons_run[OF join_words_no_colon2(2)[OF pw] tail])
    then have "replace_colons (join '':'' ?marked) = join '':'' ?pre @ '':'' @ '':'' @ join '':'' ?post"
      unfolding j using m' by simp
    then have r: "compressIPv6 ws = join '':'' ?pre @ ''::'' @ join '':'' ?post"
      using c by simp
    have "1 \<le> k \<and> i + k \<le> 8 \<and> (\<forall>x. i \<le> x \<and> x < i + k \<longrightarrow> ws ! x = ''0'')
             \<and> compressIPv6 ws = join '':'' (take i ws) @ ''::'' @ join '':'' (drop (i + k) ws)"
      using k b z assms(1) r by simp
    then show ?thesis by blast
  qed
qed

section \<open>Zero groups and the double colon\<close>

lemma zero_text_iff: "''0'' \<in> set (map (toString 16) (groups n)) \<longleftrightarrow> 0 \<in> set (groups n)"
proof
  have t: "toString 16 g = ''0'' \<longleftrightarrow> g = 0" if "g \<in> set (groups n)" for g
  proof -
    from that obtain x where "g = x AND 0xffff" by (auto simp: groups_def)
    then show ?thesis using group_text_zero by simp
  qed
  {
    assume "''0'' \<in> set (map (toString 16) (groups n))"
    then obtain g where g: "g \<in> set (groups n)" "toString 16 g = ''0''"
      by (auto simp del: toString_def)
    then have "g = 0" using t by blast
    then show "0 \<in> set (groups n)" using g by simp
  }
  {
    assume z: "0 \<in> set (groups n)"
    then have "toString 16 0 = ''0''" using t by blast
    then have "''0'' \<in> toString 16 ` set (groups n)" using z by (metis imageI)
    then show "''0'' \<in> set (map (toString 16) (groups n))" by (simp del: toString_def)
  }
qed

text \<open>
  Outside the IPv4-mapped formatting shortcut, \<^verbatim>\<open>compressIPv6\<close> writes \<open>::\<close> as soon as
  one of the eight groups is zero, whatever the length of the run: the scan has no minimum
  run length.
\<close>

lemma double_colon_iff_zero_group:
  assumes "drop_bit 32 n \<noteq> (0xffff::int)"
  shows "has_colon2 (bigIntToIp n V6 True) \<longleftrightarrow> 0 \<in> set (groups n)"
proof -
  let ?ws = "map (toString 16) (groups n)"
  have l: "length ?ws = 8" by (simp add: length_groups)
  have h: "\<forall>w\<in>set ?ws. hexword w" by (rule groups_texts_hexword)
  have words: "\<forall>w\<in>set ?ws. w \<noteq> [] \<and> CHR '':'' \<notin> set w"
    using h hexword_chars by blast
  have r: "bigIntToIp n V6 True = compressIPv6 ?ws" by (rule bigIntToIp_V6_plain(2)[OF assms])
  from compress_form[OF l h] show ?thesis
  proof (elim disjE conjE exE)
    assume "''0'' \<notin> set ?ws" and c: "compressIPv6 ?ws = join '':'' ?ws"
    then have "0 \<notin> set (groups n)" using zero_text_iff by blast
    moreover have "\<not> has_colon2 (compressIPv6 ?ws)"
      unfolding c by (rule join_words_no_colon2(1)[OF words])
    ultimately show ?thesis unfolding r by blast
  next
    fix i k
    assume k: "1 \<le> k" "i + k \<le> 8" and z: "\<forall>x. i \<le> x \<and> x < i + k \<longrightarrow> ?ws ! x = ''0''"
      and c: "compressIPv6 ?ws = join '':'' (take i ?ws) @ ''::'' @ join '':'' (drop (i + k) ?ws)"
    have "i < length ?ws" using k l by simp
    moreover have "?ws ! i = ''0''" using z k by simp
    ultimately have "''0'' \<in> set ?ws" by (metis nth_mem)
    then have "0 \<in> set (groups n)" using zero_text_iff by blast
    moreover have "has_colon2 (compressIPv6 ?ws)"
      unfolding c using has_colon2_mid by simp
    ultimately show ?thesis unfolding r by blast
  qed
qed

text \<open>
  Claim C3. The claim does not hold on the code: a run of zero groups of length 1 is
  compressed like any other. The integer below has the groups \<open>1, 0, 2, 3, 4, 5, 6, 7\<close>,
  a lone zero group, and its compressed rendering, which the \<open>address\<close> getter returns,
  is \<open>1::2:3:4:5:6:7\<close> and not \<open>1:0:2:3:4:5:6:7\<close>; both texts parse to the same integer.
\<close>

theorem C3_lone_zero_is_collapsed:
  "groups 5192296860952734609117897189359623 = [1, 0, 2, 3, 4, 5, 6, 7]
   \<and> drop_bit 32 (5192296860952734609117897189359623::int) \<noteq> 0xffff
   \<and> bigIntToIp 5192296860952734609117897189359623 V6 True = ''1::2:3:4:5:6:7''
   \<and> has_colon2 (bigIntToIp 5192296860952734609117897189359623 V6 True)
   \<and> address_of (IPv6 5192296860952734609117897189359623) = ''1::2:3:4:5:6:7''
   \<and> ipv6ToBigInt ''1:0:2:3:4:5:6:7'' = Inr 5192296860952734609117897189359623"
proof -
  have 1: "groups 5192296860952734609117897189359623 = [1, 0, 2, 3, 4, 5, 6, 7]"
    by (simp add: groups_unfold and_ffff drop_bit_eq_div)
  have 2: "drop_bit 32 (5192296860952734609117897189359623::int) \<noteq> 0xffff"
    by (simp add: drop_bit_eq_div)
  have 3: "bigIntToIp 5192296860952734609117897189359623 V6 True = ''1::2:3:4:5:6:7''"
    by (simp add: render_eval)
  have 4: "has_colon2 (bigIntToIp 5192296860952734609117897189359623 V6 True)"
    unfolding 3 by simp
  have 5: "address_of (IPv6 5192296860952734609117897189359623) = ''1::2:3:4:5:6:7''"
    unfolding address_of.simps by (rule 3)
  have 6: "ipv6ToBigInt ''1:0:2:3:4:5:6:7'' = Inr 5192296860952734609117897189359623"
    by (simp add: parse_eval rx_eval)
  show ?thesis using 1 2 3 4 5 6 by blast
qed

theorem C3_lone_zero_is_collapsed_witness:
  "length (filter (\<lambda>g. g = 0) (groups 5192296860952734609117897189359623)) = 1
   \<and> has_colon2 (address_of (IPv6 5192296860952734609117897189359623))"
proof -
  have g: "groups 5192296860952734609117897189359623 = [1, 0, 2, 3, 4, 5, 6, 7]"
    using C3_lone_zero_is_collapsed by blast
  have a: "address_of (IPv6 5192296860952734609117897189359623) = ''1::2:3:4:5:6:7''"
    using C3_lone_zero_is_collapsed by blast
  show ?thesis unfolding g a by simp
qed

section \<open>IPv6: the compressed rendering parses back\<close>

lemma split_join_words:
  assumes "\<forall>w\<in>set ps. hexword w"
  shows "split CHR '':'' (join '':'' ps) = (if ps = [] then [[]] else ps)"
proof (cases "ps = []")
  case True
  then show ?thesis by simp
next
  case False
  have "\<forall>w\<in>set ps. CHR '':'' \<notin> set w" using assms hexword_chars(1) by blast
  then show ?thesis using split_join[of ps "CHR '':''"] False by simp
qed

lemma zero_run_replicate:
  assumes "i + k \<le> length ws" "\<forall>x. i \<le> x \<and> x < i + k \<longrightarrow> ws ! x = z"
  shows "ws = take i ws @ replicate k z @ drop (i + k) ws"
proof -
  have "take k (drop i ws) = replicate k z"
  proof (rule nth_equalityI)
    show "length (take k (drop i ws)) = length (replicate k z)" using assms(1) by simp
  next
    fix x assume "x < length (take k (drop i ws))"
    then have x: "x < k" by simp
    then have "take k (drop i ws) ! x = ws ! (i + x)" using assms(1) by simp
    also have "\<dots> = z" using assms(2) x by simp
    finally show "take k (drop i ws) ! x = replicate k z ! x" using x by simp
  qed
  moreover have "drop i ws = take k (drop i ws) @ drop k (drop i ws)"
    by (rule append_take_drop_id[symmetric])
  moreover have "drop k (drop i ws) = drop (i + k) ws" by (simp add: add.commute)
  ultimately have "drop i ws = replicate k z @ drop (i + k) ws" by (simp only:)
  then show ?thesis by (metis append_take_drop_id)
qed

lemma hex_value_zero_text: "hex_value ''0'' = 0" "hex_value [] = 0"
  by (simp_all add: hex_value_def hex_val_def less_eq_char_def)

text \<open>Expanding the shorthand puts back as many empty parts as the run had groups.\<close>

lemma expand_compressed:
  assumes "\<forall>w\<in>set pre. hexword w" "\<forall>w\<in>set post. hexword w"
    and "1 \<le> k" "length pre + k + length post = 8"
  shows "expandIPv6Shorthand (split CHR '':'' (join '':'' pre @ ''::'' @ join '':'' post))
         = Inr (pre @ replicate k [] @ post)"
proof -
  let ?X = "if pre = [] then [[]] else pre" and ?Y = "if post = [] then [[]] else post"
  have "join '':'' pre @ ''::'' @ join '':'' post
        = join '':'' pre @ CHR '':'' # ([] @ CHR '':'' # join '':'' post)" by simp
  then have "split CHR '':'' (join '':'' pre @ ''::'' @ join '':'' post)
        = split CHR '':'' (join '':'' pre) @ split CHR '':'' [] @ split CHR '':'' (join '':'' post)"
    by (simp only: split_colon_compositional)
  then have sp: "split CHR '':'' (join '':'' pre @ ''::'' @ join '':'' post) = ?X @ [] # ?Y"
    by (simp add: split_join_words[OF assms(1)] split_join_words[OF assms(2)])
  have npre: "[] \<notin> set pre" using assms(1) hexword_chars(5) by blast
  have idx: "indexOf (?X @ [] # ?Y) [] = Some (length pre)"
  proof (cases "pre = []")
    case True
    then show ?thesis by simp
  next
    case False
    then show ?thesis using indexOf_append_first[OF npre] by simp
  qed
  have tk: "take (length pre) (?X @ [] # ?Y) = pre" by simp
  show ?thesis
  proof (cases "pre = []")
    case pe: True
    show ?thesis
    proof (cases "post = []")
      case True
      then have "k = 8" using pe assms(4) by simp
      then show ?thesis
        unfolding sp expandIPv6Shorthand_def idx using pe True
        by (simp add: replicate_unfold)
    next
      case False
      obtain k' where k': "k = Suc k'" using assms(3) by (cases k) auto
      have "9 - length (?X @ [] # ?Y) = k'" using pe False assms(4) k' by simp
      then show ?thesis
        unfolding expandIPv6Shorthand_def sp idx using pe False k' assms(4)
        by (simp add: replicate_append_same)
    qed
  next
    case pn: False
    show ?thesis
    proof (cases "post = []")
      case True
      obtain k' where k': "k = Suc k'" using assms(3) by (cases k) auto
      have "9 - length (?X @ [] # ?Y) = k'" using pn True assms(4) k' by simp
      then show ?thesis
        unfolding expandIPv6Shorthand_def sp idx using pn True k' assms(4)
        by (simp add: replicate_append_same)
    next
      case False
      have "9 - length (?X @ [] # ?Y) = k" using pn False assms(4) by simp
      then show ?thesis
        unfolding expandIPv6Shorthand_def sp idx using pn False assms(4)
        by simp
    qed
  qed
qed

lemma compressed_parse_form:
  assumes "length ws = 8" "\<forall>w\<in>set ws. hexword w"
    and "1 \<le> k" "i + k \<le> 8" "\<forall>x. i \<le> x \<and> x < i + k \<longrightarrow> ws ! x = ''0''"
  shows "ipv6ToBigInt (join '':'' (take i ws) @ ''::'' @ join '':'' (drop (i + k) ws))
         = Inr (groups_to_number ws)"
proof -
  let ?pre = "take i ws" and ?post = "drop (i + k) ws"
  let ?s = "join '':'' ?pre @ ''::'' @ join '':'' ?post"
  let ?E = "?pre @ replicate k [] @ ?post"
  have pw: "\<forall>w\<in>set ?pre. hexword w" using assms(2) by (meson in_set_takeD)
  have qw: "\<forall>w\<in>set ?post. hexword w" using assms(2) by (meson in_set_dropD)
  have len: "length ?pre + k + length ?post = 8" using assms(1,4) by simp
  have ex: "expandIPv6Shorthand (split CHR '':'' ?s) = Inr ?E"
    by (rule expand_compressed[OF pw qw assms(3) len])
  have c1: "CHR ''%'' \<notin> set ?s"
    using hexwords_join_chars(1)[OF pw] hexwords_join_chars(1)[OF qw] by simp
  have c2: "CHR ''.'' \<notin> set ?s"
    using hexwords_join_chars(2)[OF pw] hexwords_join_chars(2)[OF qw] by simp
  have l: "length ?E = 8" using len by simp
  have h: "\<forall>p\<in>set ?E. list_all is_hex p \<and> length p \<le> 4"
    using pw qw by (auto simp: hexword_def)
  have ws: "ws = ?pre @ replicate k ''0'' @ ?post"
    using zero_run_replicate[of i k ws "''0''"] assms(1,4,5) by simp
  have "map hex_value ws = map hex_value (?pre @ replicate k ''0'' @ ?post)"
    using ws by simp
  also have "\<dots> = map hex_value ?E" by (simp add: hex_value_zero_text)
  finally have v: "groups_to_number ?E = groups_to_number ws"
    using groups_to_number_cong by metis
  show ?thesis
    using ipv6ToBigInt_plain[OF c1 c2 ex l h] v by simp
qed

lemma compressed_parse:
  assumes "drop_bit 32 n \<noteq> (0xffff::int)"
  shows "ipv6ToBigInt (bigIntToIp n V6 True) = Inr (n mod 2 ^ 128)"
proof -
  let ?ws = "map (toString 16) (groups n)"
  have l: "length ?ws = 8" by (simp add: length_groups)
  have h: "\<forall>w\<in>set ?ws. hexword w" by (rule groups_texts_hexword)
  have r: "bigIntToIp n V6 True = compressIPv6 ?ws" by (rule bigIntToIp_V6_plain(2)[OF assms])
  from compress_form[OF l h] have "ipv6ToBigInt (compressIPv6 ?ws) = Inr (groups_to_number ?ws)"
  proof (elim disjE conjE exE)
    assume "compressIPv6 ?ws = join '':'' ?ws"
    then show ?thesis using ipv6_parse_full[OF l h] by simp
  next
    fix i k
    assume "1 \<le> k" "i + k \<le> 8" "\<forall>x. i \<le> x \<and> x < i + k \<longrightarrow> ?ws ! x = ''0''"
      and c: "compressIPv6 ?ws = join '':'' (take i ?ws) @ ''::'' @ join '':'' (drop (i + k) ?ws)"
    then show ?thesis using compressed_parse_form[OF l h, of k i] by simp
  qed
  then show ?thesis unfolding r groups_value .
qed

section \<open>IPv6: every rendering parses back\<close>

lemma ipv6_render_parse: "ipv6ToBigInt (bigIntToIp n V6 c) = Inr (n mod 2 ^ 128)"
proof (cases "drop_bit 32 n = (0xffff::int)")
  case True
  then have d: "n div 4294967296 = 65535" by (simp add: drop_bit_eq_div)
  have "n = n div 4294967296 * 4294967296 + n mod 4294967296" by simp
  moreover have "0 \<le> n mod 4294967296" "n mod 4294967296 < 4294967296" by simp_all
  ultimately have "0 \<le> n \<and> n < 340282366920938463463374607431768211456"
    using d by linarith
  then have "n mod 2 ^ 128 = n" by simp
  then show ?thesis using mapped_parse[OF True] by simp
next
  case False
  then show ?thesis using compressed_parse[OF False] expanded_parse[OF False] by (cases c) simp_all
qed

section \<open>IPv6: the compressed rendering is a valid literal\<close>

lemma rx_test_Alt: "rx_test (Alt r1 r2) s \<longleftrightarrow> rx_test r1 s \<or> rx_test r2 s"
  by (auto simp: rx_test_def)

lemma rx_test_alts: "rx_test (alts r rs) s \<longleftrightarrow> rx_test r s \<or> (\<exists>x\<in>set rs. rx_test x s)"
  unfolding alts_def
  by (induction rs arbitrary: r) (auto simp: rx_test_Alt)

lemma rx_test_Rep_concat:
  assumes "\<forall>u\<in>set us. rx_test r u" "m \<le> length us" "length us \<le> n"
  shows "rx_test (Rep m n r) (concat us)"
  using assms
proof (induction us arbitrary: m n)
  case Nil
  then show ?case by (cases n) (simp_all add: rx_test_def)
next
  case (Cons u us)
  obtain n' where n: "n = Suc n'" using Cons(4) by (cases n) auto
  have u: "rx_test r u" using Cons(2) by simp
  have rest: "rx_test (Rep (m - 1) n' r) (concat us)"
    using Cons(1)[of "m - 1" n'] Cons(2,3,4) n by simp
  have "concat us \<in> set (rmatches r (u @ concat us))" by (rule rx_test_prefix[OF u])
  then have "[] \<in> set (concat (map (rmatches (Rep (m - 1) n' r)) (rmatches r (u @ concat us))))"
    using rest by (auto simp: rx_test_def)
  then show ?case unfolding n by (cases m) (simp_all add: rx_test_def)
qed

lemma segment_valid:
  assumes "hexword w"
  shows "rx_test IPV6_SEGMENT w"
proof -
  have "\<forall>c\<in>set w. rx_test (Alt (Rng CHR ''0'' CHR ''9'') (Alt (Rng CHR ''A'' CHR ''F'') (Rng CHR ''a'' CHR ''f''))) [c]"
    using assms by (auto simp: hexword_def list_all_iff is_hex_def rx_test_def)
  moreover have "1 \<le> length w" "length w \<le> 4"
    using assms by (cases w; simp add: hexword_def)+
  ultimately show ?thesis unfolding IPV6_SEGMENT_def by (intro rx_test_Rep_chars) auto
qed

lemma seg_colon_valid: "hexword w \<Longrightarrow> rx_test seg_colon (w @ '':'')"
  unfolding seg_colon_def by (rule rx_test_Seq[OF segment_valid rx_test_Chr])

lemma colon_seg_valid: "hexword w \<Longrightarrow> rx_test colon_seg ('':'' @ w)"
  unfolding colon_seg_def by (rule rx_test_Seq[OF rx_test_Chr segment_valid])

lemma concat_seg_colon: "ws \<noteq> [] \<Longrightarrow> concat (map (\<lambda>w. w @ '':'') ws) = join '':'' ws @ '':''"
proof (induction ws)
  case Nil
  then show ?case by simp
next
  case (Cons w ws)
  then show ?case by (cases ws) simp_all
qed

lemma concat_colon_seg: "ws \<noteq> [] \<Longrightarrow> concat (map (\<lambda>w. '':'' @ w) ws) = '':'' @ join '':'' ws"
proof (induction ws)
  case Nil
  then show ?case by simp
next
  case (Cons w ws)
  then show ?case by (cases ws) simp_all
qed

lemma rep_seg_colon:
  assumes "\<forall>w\<in>set ws. hexword w" "ws \<noteq> []" "m \<le> length ws" "length ws \<le> n"
  shows "rx_test (Rep m n seg_colon) (join '':'' ws @ '':'')"
proof -
  have "rx_test (Rep m n seg_colon) (concat (map (\<lambda>w. w @ '':'') ws))"
    using assms seg_colon_valid by (intro rx_test_Rep_concat) auto
  then show ?thesis using concat_seg_colon[OF assms(2)] by simp
qed

lemma rep_colon_seg:
  assumes "\<forall>w\<in>set ws. hexword w" "ws \<noteq> []" "m \<le> length ws" "length ws \<le> n"
  shows "rx_test (Rep m n colon_seg) ('':'' @ join '':'' ws)"
proof -
  have "rx_test (Rep m n colon_seg) (concat (map (\<lambda>w. '':'' @ w) ws))"
    using assms colon_seg_valid by (intro rx_test_Rep_concat) auto
  then show ?thesis using concat_colon_seg[OF assms(2)] by simp
qed

lemma rx_test_Seq_Eps: "rx_test r s \<Longrightarrow> rx_test (Seq r Eps) s"
  using rx_test_Seq[OF _ rx_test_Eps, of r s] by simp

lemma standard_valid:
  assumes "length ws = 8" "\<forall>w\<in>set ws. hexword w"
  shows "rx_test IPV6_STANDARD (join '':'' ws)"
proof -
  have "take (Suc 7) ws = take 7 ws @ [ws ! 7]"
    using assms(1) by (intro take_Suc_conv_app_nth) simp
  moreover have "take (Suc 7) ws = ws" using assms(1) by simp
  ultimately have ws: "ws = take 7 ws @ [ws ! 7]" by simp
  have t: "\<forall>w\<in>set (take 7 ws). hexword w" using assms(2) by (meson in_set_takeD)
  have l: "hexword (ws ! 7)" using assms by simp
  have ne: "take 7 ws \<noteq> []" using assms(1) by auto
  have "join '':'' ws = join '':'' (take 7 ws @ [ws ! 7])" using ws by simp
  also have "\<dots> = (join '':'' (take 7 ws) @ '':'') @ ws ! 7"
    using join_append[OF ne, of "[ws ! 7]" "'':''"] by simp
  finally have j: "join '':'' ws = (join '':'' (take 7 ws) @ '':'') @ ws ! 7" .
  have "rx_test (Rep 7 7 seg_colon) (join '':'' (take 7 ws) @ '':'')"
    using assms(1) by (intro rep_seg_colon[OF t ne]) simp_all
  then show ?thesis
    unfolding IPV6_STANDARD_def seqs_def foldr.simps o_apply id_apply j
    by (intro rx_test_Seq rx_test_Seq_Eps segment_valid[OF l])
qed

lemma compressed_valid:
  assumes "\<forall>w\<in>set pre. hexword w" "\<forall>w\<in>set post. hexword w" "length pre + length post \<le> 7"
  shows "rx_test IPV6_COMBINED (join '':'' pre @ ''::'' @ join '':'' post)"
proof -
  let ?s = "join '':'' pre @ ''::'' @ join '':'' post"
  have alt: "rx_test r ?s \<Longrightarrow> r \<in> set [IPV6_COMPRESSED_1, IPV6_COMPRESSED_2, IPV6_COMPRESSED_3,
        IPV6_COMPRESSED_4, IPV6_COMPRESSED_5, IPV6_COMPRESSED_6, IPV6_COMPRESSED_7,
        IPV6_COMPRESSED_8, IPV6_COMPRESSED_9, IPV6_COMPRESSED_10, IPV6_IPV4_MAPPED]
        \<Longrightarrow> rx_test IPV6_COMBINED ?s" for r
    unfolding IPV6_COMBINED_def rx_test_alts by blast
  show ?thesis
  proof (cases "pre = []")
    case pe: True
    show ?thesis
    proof (cases "post = []")
      case True
      have "rx_test IPV6_COMPRESSED_10 ?s"
        using pe True by (simp add: IPV6_COMPRESSED_10_def colon2_def rx_test_def)
      then show ?thesis by (rule alt) simp
    next
      case False
      have "rx_test (Rep 1 7 colon_seg) ('':'' @ join '':'' post)"
        using assms(3) False by (intro rep_colon_seg[OF assms(2) False]) (cases post; simp)+
      then have "rx_test IPV6_COMPRESSED_2 ('':'' @ ('':'' @ join '':'' post))"
        unfolding IPV6_COMPRESSED_2_def seqs_def foldr.simps o_apply id_apply
        by (intro rx_test_Seq rx_test_Seq_Eps rx_test_Chr)
      then have "rx_test IPV6_COMPRESSED_2 ?s" using pe by simp
      then show ?thesis by (rule alt) simp
    qed
  next
    case pn: False
    have p1: "1 \<le> length pre" using pn by (cases pre) auto
    show ?thesis
    proof (cases "post = []")
      case True
      have "rx_test (Rep 1 7 seg_colon) (join '':'' pre @ '':'')"
        using assms(3) p1 by (intro rep_seg_colon[OF assms(1) pn]) simp_all
      then have "rx_test IPV6_COMPRESSED_1 ((join '':'' pre @ '':'') @ ('':'' @ []))"
        unfolding IPV6_COMPRESSED_1_def seqs_def foldr.simps o_apply id_apply
        by (intro rx_test_Seq rx_test_Seq_Eps) (simp_all add: rx_test_Chr)
      then have "rx_test IPV6_COMPRESSED_1 ?s" using True by simp
      then show ?thesis by (rule alt) simp
    next
      case qn: False
      have q1: "1 \<le> length post" using qn by (cases post) auto
      have s: "?s = (join '':'' pre @ '':'') @ ('':'' @ join '':'' post)" by simp
      have both: "rx_test (Seq (Rep 1 P seg_colon) (Seq (Rep 1 Q colon_seg) Eps)) ?s"
        if "length pre \<le> P" "length post \<le> Q" for P Q
        unfolding s using that p1 q1
        by (intro rx_test_Seq rx_test_Seq_Eps rep_seg_colon[OF assms(1) pn]
            rep_colon_seg[OF assms(2) qn])
      consider (a) "length pre \<le> 5 \<and> length post \<le> 2" | (b) "length pre \<le> 4 \<and> length post \<le> 3"
        | (c) "length pre \<le> 3 \<and> length post \<le> 4" | (d) "length pre \<le> 2 \<and> length post \<le> 5"
        | (e) "length pre = 6 \<and> length post = 1" | (f) "length pre = 1 \<and> length post = 6"
        using assms(3) p1 q1 by linarith
      then show ?thesis
      proof cases
        case a
        then have "rx_test IPV6_COMPRESSED_4 ?s"
          unfolding IPV6_COMPRESSED_4_def seqs_def foldr.simps o_apply id_apply
          by (intro both) simp_all
        then show ?thesis by (rule alt) simp
      next
        case b
        then have "rx_test IPV6_COMPRESSED_5 ?s"
          unfolding IPV6_COMPRESSED_5_def seqs_def foldr.simps o_apply id_apply
          by (intro both) simp_all
        then show ?thesis by (rule alt) simp
      next
        case c
        then have "rx_test IPV6_COMPRESSED_6 ?s"
          unfolding IPV6_COMPRESSED_6_def seqs_def foldr.simps o_apply id_apply
          by (intro both) simp_all
        then show ?thesis by (rule alt) simp
      next
        case d
        then have "rx_test IPV6_COMPRESSED_7 ?s"
          unfolding IPV6_COMPRESSED_7_def seqs_def foldr.simps o_apply id_apply
          by (intro both) simp_all
        then show ?thesis by (rule alt) simp
      next
        case e
        then obtain w where w: "post = [w]" by (cases post) auto
        then have hw: "hexword w" using assms(2) by simp
        have "rx_test (Rep 1 6 seg_colon) (join '':'' pre @ '':'')"
          using e by (intro rep_seg_colon[OF assms(1) pn]) simp_all
        then have "rx_test IPV6_COMPRESSED_3 ((join '':'' pre @ '':'') @ ('':'' @ w))"
          unfolding IPV6_COMPRESSED_3_def seqs_def foldr.simps o_apply id_apply
          by (intro rx_test_Seq rx_test_Seq_Eps segment_valid[OF hw]) (simp_all add: rx_test_Chr)
        then have "rx_test IPV6_COMPRESSED_3 ?s" using w by simp
        then show ?thesis by (rule alt) simp
      next
        case f
        then obtain w where w: "pre = [w]" by (cases pre) auto
        then have hw: "hexword w" using assms(1) by simp
        have "rx_test (Rep 1 6 colon_seg) ('':'' @ join '':'' post)"
          using f by (intro rep_colon_seg[OF assms(2) qn]) simp_all
        then have "rx_test IPV6_COMPRESSED_8 (w @ ('':'' @ ('':'' @ join '':'' post)))"
          unfolding IPV6_COMPRESSED_8_def seqs_def foldr.simps o_apply id_apply
          by (intro rx_test_Seq rx_test_Seq_Eps segment_valid[OF hw]) (simp_all add: rx_test_Chr)
        then have "rx_test IPV6_COMPRESSED_8 ?s" using w by simp
        then show ?thesis by (rule alt) simp
      qed
    qed
  qed
qed

section \<open>Construction from an integer\<close>

lemma ipv6_render_valid: "IPv6_isValid (bigIntToIp n V6 True)"
proof (cases "drop_bit 32 n = (0xffff::int)")
  case True
  let ?d = "bigIntToIp (n AND 0xffffffff) V4 True"
  have r: "bigIntToIp n V6 True = ''::ffff:'' @ ?d" using True by simp
  have v4: "rx_test IPV4_ADDRESS_PATTERN ?d"
    using ipv4_render_valid[of "n AND 0xffffffff" True] by (simp only: IPv4_isValid_def)
  have chars: "\<forall>x\<in>set ?d. is_digit x \<or> x = CHR ''.''"
    using IPv4_isValid_chars[OF ipv4_render_valid] .
  have "\<not> is_digit CHR ''/''" by (simp add: is_digit_def less_eq_char_def)
  then have ns: "CHR ''/'' \<notin> set (''::ffff:'' @ ?d)" using chars by auto
  have p: "rx_test (Alt (Rep 6 6 seg_colon)
             (Alt (seqs [colon2, Rep 0 5 seg_colon])
                  (seqs [Rep 0 5 seg_colon, colon2, Rep 0 5 seg_colon]))) ''::ffff:''"
    by (simp add: rx_test_def seqs_def colon2_def seg_colon_def IPV6_SEGMENT_def rmatches_Rep
        less_eq_char_def)
  have "rx_test IPV6_IPV4_MAPPED (''::ffff:'' @ (?d @ []))"
    unfolding IPV6_IPV4_MAPPED_def seqs_def[of "[_, IPV4_ADDRESS_PATTERN]"] foldr.simps o_apply id_apply
    by (intro rx_test_Seq p v4 rx_test_Eps)
  then have "rx_test IPV6_COMBINED (''::ffff:'' @ ?d)"
    unfolding IPV6_COMBINED_def rx_test_alts by simp
  then show ?thesis
    unfolding r using ns by (simp add: IPv6_isValid_def includes_char_def del: bigIntToIp.simps)
next
  case False
  let ?ws = "map (toString 16) (groups n)"
  have l: "length ?ws = 8" by (simp add: length_groups)
  have h: "\<forall>w\<in>set ?ws. hexword w" by (rule groups_texts_hexword)
  have r: "bigIntToIp n V6 True = compressIPv6 ?ws" by (rule bigIntToIp_V6_plain(2)[OF False])
  from compress_form[OF l h]
  have "CHR ''/'' \<notin> set (compressIPv6 ?ws) \<and> rx_test IPV6_COMBINED (compressIPv6 ?ws)"
  proof (elim disjE conjE exE)
    assume c: "compressIPv6 ?ws = join '':'' ?ws"
    have "rx_test IPV6_COMBINED (join '':'' ?ws)"
      unfolding IPV6_COMBINED_def rx_test_alts using standard_valid[OF l h] by blast
    then show ?thesis unfolding c using hexwords_join_chars(3)[OF h] by blast
  next
    fix i k
    assume k: "1 \<le> k" "i + k \<le> 8"
      and c: "compressIPv6 ?ws = join '':'' (take i ?ws) @ ''::'' @ join '':'' (drop (i + k) ?ws)"
    have pw: "\<forall>w\<in>set (take i ?ws). hexword w" using h by (meson in_set_takeD)
    have qw: "\<forall>w\<in>set (drop (i + k) ?ws). hexword w" using h by (meson in_set_dropD)
    have len: "length (take i ?ws) + length (drop (i + k) ?ws) \<le> 7" using k l by simp
    have "CHR ''/'' \<notin> set (join '':'' (take i ?ws) @ ''::'' @ join '':'' (drop (i + k) ?ws))"
      using hexwords_join_chars(3)[OF pw] hexwords_join_chars(3)[OF qw] by simp
    then show ?thesis unfolding c using compressed_valid[OF pw qw len] by blast
  qed
  then show ?thesis unfolding r by (simp add: IPv6_isValid_def includes_char_def)
qed

lemma IPv6_fromBigInt_total: "IPv6_fromBigInt n = Inr (IPv6 (n mod 2 ^ 128))"
  by (simp add: IPv6_fromBigInt_def IPv6_new_def ipv6_render_valid ipToBigInt_def ipv6_render_parse
      del: bigIntToIp.simps)

section \<open>The range of a parsed address\<close>

lemma length4_cases: "length xs = 4 \<Longrightarrow> \<exists>a b c d. xs = [a, b, c, d]"
  by (auto simp: length_Suc_conv numeral_eq_Suc)

lemma length8_cases: "length xs = 8 \<Longrightarrow> \<exists>a b c d e f g h. xs = [a, b, c, d, e, f, g, h]"
  by (auto simp: length_Suc_conv numeral_eq_Suc)

lemma ipv4ToBigInt_range:
  assumes "ipv4ToBigInt s = Inr v"
  shows "0 \<le> v \<and> v < 2 ^ 32"
proof -
  let ?parts = "split CHR ''.'' s"
  have l: "length ?parts = 4"
    and ok: "\<not> list_ex (\<lambda>part. \<not> all_digits part \<or> dec_value part > 255) ?parts"
    and v: "v = foldl (\<lambda>acc octet. push_bit 8 acc OR int (dec_value octet)) 0 ?parts"
    using assms by (auto simp: ipv4ToBigInt_def Let_def split: if_splits)
  obtain a b c d where p: "?parts = [a, b, c, d]" using length4_cases[OF l] by blast
  have bd: "dec_value a \<le> 255" "dec_value b \<le> 255" "dec_value c \<le> 255" "dec_value d \<le> 255"
    using ok unfolding p by (auto simp: list_ex_iff)
  have o: "push_bit 8 (x::int) OR int k = x * 256 + int k" if "k \<le> 255" for x k
    using or_push[of "int k" 8 x] that by simp
  have "v = ((int (dec_value a) * 256 + int (dec_value b)) * 256 + int (dec_value c)) * 256
             + int (dec_value d)"
    unfolding v p using bd by (simp add: o)
  then show ?thesis using bd by simp
qed

lemma hex_val_bound: "is_hex c \<Longrightarrow> hex_val c < 16"
  by (auto simp: is_hex_def hex_val_def less_eq_char_def)

lemma hex_value_bound: "list_all is_hex w \<Longrightarrow> hex_value w < 16 ^ length w"
proof (induction w rule: rev_induct)
  case Nil
  then show ?case by (simp add: hex_value_def)
next
  case (snoc c w)
  then have "hex_value w < 16 ^ length w" "hex_val c < 16" using hex_val_bound by auto
  then have "hex_value w * 16 + hex_val c < 16 ^ length w * 16" by linarith
  then show ?case by (simp add: hex_value_snoc)
qed

lemma hex_value_group_bound:
  assumes "list_all is_hex w" "length w \<le> 4"
  shows "int (hex_value w) < 65536"
proof -
  have "hex_value w < 16 ^ length w" using assms(1) by (rule hex_value_bound)
  also have "(16::nat) ^ length w \<le> 16 ^ 4" using assms(2) by (intro power_increasing) simp_all
  finally show ?thesis by simp
qed

lemma groups_to_number_range:
  assumes "length parts = 8" "\<forall>p\<in>set parts. list_all is_hex p \<and> length p \<le> 4"
  shows "0 \<le> groups_to_number parts \<and> groups_to_number parts < 2 ^ 128"
proof -
  obtain a b c d e f g h where p: "parts = [a, b, c, d, e, f, g, h]"
    using length8_cases[OF assms(1)] by blast
  have b: "int (hex_value a) < 65536" "int (hex_value b) < 65536" "int (hex_value c) < 65536"
    "int (hex_value d) < 65536" "int (hex_value e) < 65536" "int (hex_value f) < 65536"
    "int (hex_value g) < 65536" "int (hex_value h) < 65536"
    using assms(2) hex_value_group_bound unfolding p by auto
  show ?thesis unfolding p groups_to_number_8 using b by simp
qed

lemma ipv6ToBigInt_range:
  assumes "ipv6ToBigInt s = Inr v"
  shows "0 \<le> v \<and> v < 2 ^ 128"
proof -
  obtain ip where ip: "(if includes_char s CHR ''%''
            then (case zone_exec s of None \<Rightarrow> Inl TypeError | Some g \<Rightarrow> Inr g)
            else Inr s) = Inr ip"
    using assms by (auto simp: ipv6ToBigInt_def split: sum.splits)
  show ?thesis
  proof (cases "ipv4MappedMatch ip")
    case (Some d)
    then obtain x where x: "ipv4ToBigInt d = Inr x" and v: "v = push_bit 32 0xffff OR x"
      using assms ip by (auto simp: ipv6ToBigInt_def split: sum.splits)
    have b: "0 \<le> x" "x < 2 ^ 32" using ipv4ToBigInt_range[OF x] by simp_all
    have "v = 0xffff * 2 ^ 32 + x" unfolding v by (rule or_push[OF b])
    then show ?thesis using b by simp
  next
    case None
    then obtain parts where "expandIPv6Shorthand (split CHR '':'' ip) = Inr parts"
      and l: "length parts = 8"
      and ok: "\<not> list_ex (\<lambda>part. \<not> list_all is_hex part \<or> length part > 4) parts"
      and v: "v = groups_to_number parts"
      using assms ip by (auto simp: ipv6ToBigInt_def split: sum.splits if_splits)
    have "\<forall>p\<in>set parts. list_all is_hex p \<and> length p \<le> 4"
      using ok by (auto simp: list_ex_iff)
    then show ?thesis unfolding v using groups_to_number_range[OF l] by blast
  qed
qed

text \<open>
  Claim C1 as stated fails: \<open>fromBigInt\<close> has no range check. The integer is rendered
  with masked octets (or groups) and the text is parsed again, so \<open>2^32\<close> gives the
  address \<open>0.0.0.0\<close>, \<open>-1\<close> gives \<open>255.255.255.255\<close>, and \<open>2^128\<close> gives \<open>::\<close>.
\<close>

theorem C1_fromBigInt_out_of_range_succeeds:
  "IPv4_fromBigInt (2 ^ 32) = Inr (IPv4 0)
   \<and> IPv4_fromBigInt (- 1) = Inr (IPv4 4294967295)
   \<and> IPv6_fromBigInt (2 ^ 128) = Inr (IPv6 0)"
  using IPv4_fromBigInt_total[of "2 ^ 32"] IPv4_fromBigInt_total[of "- 1"]
    IPv6_fromBigInt_total[of "2 ^ 128"]
  by simp

text \<open>
  Claim C1, amended. \<open>fromBigInt\<close> never fails: for every integer \<open>n\<close>,
  \<open>IPv4.fromBigInt\<close> creates the address \<open>n mod 2^32\<close> and \<open>IPv6.fromBigInt\<close> creates
  \<open>n mod 2^128\<close>. Every instance the constructors create stores an integer inside its
  version's range.
\<close>

theorem C1_fromBigInt_wraps_and_range:
  "IPv4_fromBigInt n = Inr (IPv4 (n mod 2 ^ 32))
   \<and> IPv6_fromBigInt n = Inr (IPv6 (n mod 2 ^ 128))
   \<and> (IPv4_new s4 = Inr a4 \<longrightarrow> version a4 = V4 \<and> 0 \<le> toBigInt a4 \<and> toBigInt a4 \<le> MAX_IP V4)
   \<and> (IPv6_new s6 = Inr a6 \<longrightarrow> version a6 = V6 \<and> 0 \<le> toBigInt a6 \<and> toBigInt a6 \<le> MAX_IP V6)"
proof (intro conjI impI)
  show "IPv4_fromBigInt n = Inr (IPv4 (n mod 2 ^ 32))"
    using IPv4_fromBigInt_total[of n] by simp
  show "IPv6_fromBigInt n = Inr (IPv6 (n mod 2 ^ 128))"
    by (rule IPv6_fromBigInt_total)
next
  assume "IPv4_new s4 = Inr a4"
  then have "map_sum id IPv4 (ipv4ToBigInt s4) = Inr a4"
    by (simp add: IPv4_new_def ipToBigInt_def split: if_splits)
  then obtain v where v: "ipv4ToBigInt s4 = Inr v" "a4 = IPv4 v"
    by (cases "ipv4ToBigInt s4") auto
  then show "version a4 = V4" "0 \<le> toBigInt a4" "toBigInt a4 \<le> MAX_IP V4"
    using ipv4ToBigInt_range[OF v(1)] by simp_all
next
  assume "IPv6_new s6 = Inr a6"
  then have "map_sum id IPv6 (ipv6ToBigInt s6) = Inr a6"
    by (simp add: IPv6_new_def ipToBigInt_def split: if_splits)
  then obtain v where v: "ipv6ToBigInt s6 = Inr v" "a6 = IPv6 v"
    by (cases "ipv6ToBigInt s6") auto
  then show "version a6 = V6" "0 \<le> toBigInt a6" "toBigInt a6 \<le> MAX_IP V6"
    using ipv6ToBigInt_range[OF v(1)] by simp_all
qed

theorem C1_fromBigInt_wraps_and_range_witness:
  "IPv4_new ''10.0.0.0'' = Inr (IPv4 167772160) \<and> IPv6_new ''::1'' = Inr (IPv6 1)
   \<and> toBigInt (IPv4 167772160) \<le> MAX_IP V4 \<and> toBigInt (IPv6 1) \<le> MAX_IP V6
   \<and> IPv4_fromBigInt 4294967297 = Inr (IPv4 1)"
proof -
  have 4: "IPv4_new ''10.0.0.0'' = Inr (IPv4 167772160)"
    by (simp add: IPv4_new_def parse_eval rx_eval)
  have 6: "IPv6_new ''::1'' = Inr (IPv6 1)"
    by (simp add: IPv6_new_def parse_eval rx_eval)
  show ?thesis
    using 4 6 C1_fromBigInt_wraps_and_range[of 4294967297 "''10.0.0.0''" "IPv4 167772160" "''::1''" "IPv6 1"]
    by simp
qed

section \<open>CIDR: derived range\<close>

lemma IPv4_new_range:
  assumes "IPv4_new s = Inr a"
  shows "version a = V4 \<and> 0 \<le> toBigInt a \<and> toBigInt a \<le> MAX_IP V4"
proof -
  from assms have "map_sum id IPv4 (ipv4ToBigInt s) = Inr a"
    by (simp add: IPv4_new_def ipToBigInt_def split: if_splits)
  then obtain v where v: "ipv4ToBigInt s = Inr v" "a = IPv4 v"
    by (cases "ipv4ToBigInt s") auto
  then show ?thesis using ipv4ToBigInt_range[OF v(1)] by simp
qed

lemma IPv6_new_range:
  assumes "IPv6_new s = Inr a"
  shows "version a = V6 \<and> 0 \<le> toBigInt a \<and> toBigInt a \<le> MAX_IP V6"
proof -
  from assms have "map_sum id IPv6 (ipv6ToBigInt s) = Inr a"
    by (simp add: IPv6_new_def ipToBigInt_def split: if_splits)
  then obtain v where v: "ipv6ToBigInt s = Inr v" "a = IPv6 v"
    by (cases "ipv6ToBigInt s") auto
  then show ?thesis using ipv6ToBigInt_range[OF v(1)] by simp
qed

lemma CIDR_new_wf:
  assumes "CIDR_new s = Inr c"
  shows "0 \<le> toBigInt (cidr_address c) \<and> toBigInt (cidr_address c) \<le> MAX_IP (cidr_version c)
         \<and> 0 \<le> cidr_prefix c \<and> cidr_prefix c \<le> BITS (cidr_version c)"
proof -
  let ?ap = "hd (split CHR ''/'' s)"
  obtain a where a: "(if includes_char ?ap CHR ''.'' then IPv4_new ?ap else IPv6_new ?ap) = Inr a"
    and p: "0 \<le> cidr_prefix c" "cidr_prefix c \<le> BITS (version a)" and c: "cidr_address c = a"
    using assms
    by (auto simp: CIDR_new_def Let_def split: option.splits if_splits sum.splits list.splits)
  have "0 \<le> toBigInt a \<and> toBigInt a \<le> MAX_IP (version a)"
    using a IPv4_new_range[of ?ap a] IPv6_new_range[of ?ap a] by (auto split: if_splits)
  then show ?thesis using p c by (simp add: cidr_version_def)
qed

lemma MAX_IP_pow: "MAX_IP v = 2 ^ nat (BITS v) - 1"
  by (cases v) simp_all

lemma and_MAX_IP: "0 \<le> x \<Longrightarrow> x \<le> MAX_IP v \<Longrightarrow> x mod 2 ^ nat (BITS v) = x"
  by (simp add: MAX_IP_pow)

lemma fromBigInt_in_range:
  assumes "0 \<le> x" "x \<le> MAX_IP v"
  shows "fromBigInt v x = Inr (case v of V4 \<Rightarrow> IPv4 x | V6 \<Rightarrow> IPv6 x)"
proof (cases v)
  case V4
  then have "x mod 4294967296 = x" using assms by simp
  then show ?thesis using V4 by (simp add: fromBigInt_def IPv4_fromBigInt_total)
next
  case V6
  then have "x mod 2 ^ 128 = x" using assms by simp
  then show ?thesis using V6 IPv6_fromBigInt_total[of x] by (simp add: fromBigInt_def)
qed

lemma or_le_MAX_IP:
  assumes "0 \<le> x" "x \<le> MAX_IP v" "y \<le> MAX_IP v"
  shows "x OR y \<le> MAX_IP v"
proof -
  have "x < 2 ^ nat (BITS v)" "y < 2 ^ nat (BITS v)" using assms by (simp_all add: MAX_IP_pow)
  then have "x OR y < 2 ^ nat (BITS v)" using assms(1) by (intro OR_upper) simp_all
  then show ?thesis by (simp add: MAX_IP_pow)
qed

text \<open>The integers behind netmask, network and broadcast of a well-formed block.\<close>

lemma cidr_derived:
  assumes a: "0 \<le> toBigInt (cidr_address c)" "toBigInt (cidr_address c) \<le> MAX_IP (cidr_version c)"
    and p: "0 \<le> cidr_prefix c" "cidr_prefix c \<le> BITS (cidr_version c)"
  defines "v \<equiv> cidr_version c"
  defines "msk \<equiv> shift_left (MAX_IP v) (BITS v - cidr_prefix c) AND MAX_IP v"
  defines "N \<equiv> toBigInt (cidr_address c) AND msk"
  defines "H \<equiv> shift_right (MAX_IP v) (cidr_prefix c)"
  shows "network c = Inr (case v of V4 \<Rightarrow> IPv4 N | V6 \<Rightarrow> IPv6 N)"
    and "broadcast c = Inr (case v of V4 \<Rightarrow> IPv4 (N OR H) | V6 \<Rightarrow> IPv6 (N OR H))"
    and "0 \<le> N" "N \<le> N OR H" "N OR H \<le> MAX_IP v"
proof -
  have M: "0 \<le> MAX_IP v" by (cases v) simp_all
  have m0: "0 \<le> msk" unfolding msk_def using M by simp
  have m1: "msk \<le> MAX_IP v" unfolding msk_def using M by (intro AND_upper2) simp
  have nm: "netmask c = Inr (case v of V4 \<Rightarrow> IPv4 msk | V6 \<Rightarrow> IPv6 msk)"
    using fromBigInt_in_range[OF m0 m1] by (simp add: netmask_def Let_def v_def msk_def)
  have tm: "toBigInt (case v of V4 \<Rightarrow> IPv4 msk | V6 \<Rightarrow> IPv6 msk) = msk"
    by (cases v) simp_all
  show n0: "0 \<le> N" unfolding N_def using a(1) by simp
  have n1: "N \<le> toBigInt (cidr_address c)" unfolding N_def using a(1) by (intro AND_upper1) simp
  then have n2: "N \<le> MAX_IP v" using a(2) by (simp add: v_def)
  show net: "network c = Inr (case v of V4 \<Rightarrow> IPv4 N | V6 \<Rightarrow> IPv6 N)"
    using fromBigInt_in_range[OF n0 n2] nm tm by (simp add: network_def N_def v_def)
  have tn: "toBigInt (case v of V4 \<Rightarrow> IPv4 N | V6 \<Rightarrow> IPv6 N) = N"
    by (cases v) simp_all
  have H: "H = drop_bit (nat (cidr_prefix c)) (MAX_IP v)"
    unfolding H_def shift_right_def using p(1) by simp
  have h0: "0 \<le> H" unfolding H using M by simp
  have "MAX_IP v div 2 ^ nat (cidr_prefix c) \<le> MAX_IP v div 1"
    using M by (intro zdiv_mono2) simp_all
  then have h1: "H \<le> MAX_IP v" unfolding H by (simp add: drop_bit_eq_div)
  show "N \<le> N OR H" using h0 by (rule or_greater_eq)
  show b1: "N OR H \<le> MAX_IP v" by (rule or_le_MAX_IP[OF n0 n2 h1])
  have b0: "0 \<le> N OR H" using n0 h0 by simp
  show "broadcast c = Inr (case v of V4 \<Rightarrow> IPv4 (N OR H) | V6 \<Rightarrow> IPv6 (N OR H))"
    using fromBigInt_in_range[OF b0 b1] net tn
    by (simp add: broadcast_def Let_def H_def v_def)
qed

lemma and3: "(x::int) AND 3 = x mod 4"
proof -
  have "x AND mask 2 = take_bit 2 x" by (simp add: take_bit_eq_mask)
  then show ?thesis by (simp add: mask_eq_exp_minus_1 take_bit_eq_mod)
qed

lemma v4_low_bits:
  "\<forall>k<31. (push_bit (32 - k) (0xffffffff::int) AND 0xffffffff) mod 4 = 0
           \<and> drop_bit k (0xffffffff::int) mod 4 = 3"
  by (simp add: all_less_unfold and_ffffffff push_bit_eq_mult drop_bit_eq_div)

text \<open>Below /31 an IPv4 block has at least four addresses: the network address ends in
  two zero bits and the broadcast address in two one bits.\<close>

lemma v4_block_gap:
  assumes "0 \<le> a" "0 \<le> p" "p \<le> 30"
  defines "msk \<equiv> shift_left (MAX_IP V4) (BITS V4 - p) AND MAX_IP V4"
  defines "N \<equiv> a AND msk"
  defines "H \<equiv> shift_right (MAX_IP V4) p"
  shows "N + 3 \<le> N OR H"
proof -
  have k: "nat p < 31" using assms(2,3) by simp
  have sl: "shift_left (MAX_IP V4) (BITS V4 - p) = push_bit (32 - nat p) 0xffffffff"
    using assms(2,3) by (simp add: shift_left_def nat_diff_distrib)
  have sr: "H = drop_bit (nat p) 0xffffffff"
    unfolding H_def using assms(2) by (simp add: shift_right_def)
  have m: "msk mod 4 = 0" and h: "H mod 4 = 3"
    using v4_low_bits k unfolding msk_def sl sr by auto
  have "N AND 3 = a AND (msk AND 3)" unfolding N_def by (simp add: and.assoc)
  then have n: "N mod 4 = 0" using m by (simp add: and3)
  have "(N OR H) AND 3 = (N AND 3) OR (H AND 3)" by (simp add: bit.conj_disj_distrib2)
  then have b: "(N OR H) mod 4 = 3" using n h by (simp add: and3)
  have "0 \<le> H" unfolding sr by simp
  then have le: "N \<le> N OR H" by (rule or_greater_eq)
  show ?thesis using n b le by presburger
qed

text \<open>
  Claim C9. For every CIDR block the constructor accepts, network, broadcast, first and
  last are all produced, \<open>network \<le> last\<close> and \<open>first \<le> last\<close>, the block contains its
  network and its broadcast address, and \<open>first = network\<close>, \<open>last = broadcast\<close> for
  IPv4 prefixes 31 and 32 and for every IPv6 prefix.
\<close>

theorem C9_cidr_range_consistent:
  assumes "CIDR_new s = Inr c"
  shows "\<exists>n b f l. network c = Inr n \<and> broadcast c = Inr b \<and> first c = Inr f \<and> last_addr c = Inr l
           \<and> toBigInt n \<le> toBigInt l \<and> toBigInt f \<le> toBigInt l
           \<and> contains c (Instance n) = Inr True \<and> contains c (Instance b) = Inr True
           \<and> (cidr_version c = V4 \<and> 31 \<le> cidr_prefix c \<longrightarrow> f = n \<and> l = b)
           \<and> (cidr_version c = V6 \<longrightarrow> f = n \<and> l = b)"
proof -
  define v where "v = cidr_version c"
  define msk where "msk = shift_left (MAX_IP v) (BITS v - cidr_prefix c) AND MAX_IP v"
  define N where "N = toBigInt (cidr_address c) AND msk"
  define H where "H = shift_right (MAX_IP v) (cidr_prefix c)"
  define n where "n = (case v of V4 \<Rightarrow> IPv4 N | V6 \<Rightarrow> IPv6 N)"
  define b where "b = (case v of V4 \<Rightarrow> IPv4 (N OR H) | V6 \<Rightarrow> IPv6 (N OR H))"
  note wf = CIDR_new_wf[OF assms]
  have w: "0 \<le> toBigInt (cidr_address c)" "toBigInt (cidr_address c) \<le> MAX_IP (cidr_version c)"
    "0 \<le> cidr_prefix c" "cidr_prefix c \<le> BITS (cidr_version c)"
    using wf by simp_all
  have net: "network c = Inr n" and bc: "broadcast c = Inr b"
    and n0: "0 \<le> N" and nb: "N \<le> N OR H" and bm: "N OR H \<le> MAX_IP v"
    using cidr_derived[OF w] unfolding n_def b_def v_def msk_def N_def H_def by simp_all
  have vn: "version n = v" "toBigInt n = N" and vb: "version b = v" "toBigInt b = N OR H"
    unfolding n_def b_def by (cases v; simp)+
  have cn: "contains c (Instance n) = Inr True"
    using net bc vn vb nb by (simp add: contains_def v_def)
  have cb: "contains c (Instance b) = Inr True"
    using net bc vn vb nb by (simp add: contains_def v_def)
  show ?thesis
  proof (cases "v = V4 \<and> cidr_prefix c \<le> 30")
    case False
    then have f: "first c = Inr n" and l: "last_addr c = Inr b"
      using net bc by (cases v; simp add: first_def last_addr_def v_def)+
    have "toBigInt n \<le> toBigInt b" using vn vb nb by simp
    then show ?thesis using net bc f l cn cb by auto
  next
    case True
    then have v4: "v = V4" and p30: "cidr_prefix c \<le> 30" by simp_all
    have n4: "n = IPv4 N" and b4: "b = IPv4 (N OR H)" unfolding n_def b_def using v4 by simp_all
    have gap: "N + 3 \<le> N OR H"
      using v4_block_gap[OF w(1) w(3) p30] unfolding N_def H_def msk_def v4 by simp
    have bm4: "N OR H \<le> 4294967295" using bm v4 by simp
    have "(N + 1) AND MAX_IP V4 = N + 1"
      using n0 gap bm4 by (simp add: and_ffffffff)
    then have f: "first c = Inr (IPv4 (N + 1))"
      using net n4 v4 p30 n0 gap bm4
      by (simp add: first_def v_def IPv4_fromBigInt_total)
    have lb: "0 \<le> (N OR H) - 1" "(N OR H) - 1 < 4294967296" using n0 gap bm4 by linarith+
    have "((N OR H) - 1) AND MAX_IP V4 = (N OR H) - 1"
      using lb by (simp add: and_ffffffff)
    then have l: "last_addr c = Inr (IPv4 ((N OR H) - 1))"
      using bc b4 v4 p30 lb
      by (simp add: last_addr_def v_def IPv4_fromBigInt_total)
    have "toBigInt n \<le> toBigInt (IPv4 ((N OR H) - 1))" using vn gap by simp
    moreover have "toBigInt (IPv4 (N + 1)) \<le> toBigInt (IPv4 ((N OR H) - 1))" using gap by simp
    moreover have "\<not> (cidr_version c = V4 \<and> 31 \<le> cidr_prefix c)" using p30 by simp
    moreover have "cidr_version c \<noteq> V6" using v4 by (simp add: v_def)
    ultimately show ?thesis using net bc f l cn cb by auto
  qed
qed

theorem C9_cidr_range_consistent_witness:
  "CIDR_new ''10.0.0.0/24'' = Inr (CIDR (IPv4 167772160) 24)
   \<and> (\<exists>n b f l. network (CIDR (IPv4 167772160) 24) = Inr n
         \<and> broadcast (CIDR (IPv4 167772160) 24) = Inr b
         \<and> first (CIDR (IPv4 167772160) 24) = Inr f
         \<and> last_addr (CIDR (IPv4 167772160) 24) = Inr l
         \<and> toBigInt n \<le> toBigInt l \<and> toBigInt f \<le> toBigInt l
         \<and> contains (CIDR (IPv4 167772160) 24) (Instance n) = Inr True
         \<and> contains (CIDR (IPv4 167772160) 24) (Instance b) = Inr True)"
proof -
  have v: "IPv4_new ''10.0.0.0'' = Inr (IPv4 167772160)"
    by (simp add: IPv4_new_def parse_eval rx_eval)
  have h: "CIDR_new ''10.0.0.0/24'' = Inr (CIDR (IPv4 167772160) 24)"
    using v by (simp add: class_eval includes_char_def is_digit_def dec_value_def digit_val_def less_eq_char_def)
  show ?thesis using h C9_cidr_range_consistent[OF h] by blast
qed

section \<open>Integer round trip and version detection\<close>

lemma join_has_sep:
  assumes "2 \<le> length ws"
  shows "c \<in> set (join [c] ws)"
proof -
  obtain a rest where 1: "ws = a # rest" using assms by (cases ws) auto
  then obtain b rest' where 2: "rest = b # rest'" using assms by (cases rest) auto
  show ?thesis unfolding 1 2 by simp
qed

lemma v4_render_dot: "CHR ''.'' \<in> set (bigIntToIp n V4 c)"
  by simp

lemma v6_render_chars:
  assumes "drop_bit 32 n \<noteq> (0xffff::int)"
  shows "CHR ''.'' \<notin> set (bigIntToIp n V6 c) \<and> CHR '':'' \<in> set (bigIntToIp n V6 c)"
proof (cases c)
  case False
  let ?ws = "map (padStart 4 CHR ''0'') (map (toString 16) (groups n))"
  have r: "bigIntToIp n V6 c = join '':'' ?ws"
    using False bigIntToIp_V6_plain(1)[OF assms] by simp
  have h: "\<forall>w\<in>set ?ws. hexword w"
    using groups_texts_hexword[of n] hexword_pad by auto
  have l: "2 \<le> length ?ws" by (simp add: length_groups)
  show ?thesis
    unfolding r using hexwords_join_chars(2)[OF h] join_has_sep[OF l, of "CHR '':''"] by blast
next
  case True
  let ?ws = "map (toString 16) (groups n)"
  have l: "length ?ws = 8" by (simp add: length_groups)
  have h: "\<forall>w\<in>set ?ws. hexword w" by (rule groups_texts_hexword)
  have r: "bigIntToIp n V6 c = compressIPv6 ?ws"
    using True bigIntToIp_V6_plain(2)[OF assms] by simp
  from compress_form[OF l h]
  have "CHR ''.'' \<notin> set (compressIPv6 ?ws) \<and> CHR '':'' \<in> set (compressIPv6 ?ws)"
  proof (elim disjE conjE exE)
    assume c: "compressIPv6 ?ws = join '':'' ?ws"
    have "2 \<le> length ?ws" using l by simp
    then have "CHR '':'' \<in> set (join '':'' ?ws)" by (rule join_has_sep)
    then show ?thesis unfolding c using hexwords_join_chars(2)[OF h] by blast
  next
    fix i k
    assume c: "compressIPv6 ?ws = join '':'' (take i ?ws) @ ''::'' @ join '':'' (drop (i + k) ?ws)"
    have pw: "\<forall>w\<in>set (take i ?ws). hexword w" using h by (meson in_set_takeD)
    have qw: "\<forall>w\<in>set (drop (i + k) ?ws). hexword w" using h by (meson in_set_dropD)
    show ?thesis
      unfolding c using hexwords_join_chars(2)[OF pw] hexwords_join_chars(2)[OF qw] by simp
  qed
  then show ?thesis unfolding r .
qed

lemma split_first_part:
  assumes "x \<noteq> sep"
  shows "\<exists>p ps. split sep (x # xs) = (x # p) # ps"
  using assms by (cases "split sep xs") simp_all

text \<open>The mapped rendering contains a dot, and it is no IPv4 literal.\<close>

lemma mapped_render_not_ipv4:
  assumes "drop_bit 32 n = (0xffff::int)"
  shows "CHR ''.'' \<in> set (bigIntToIp n V6 c)"
    and "ipv4ToBigInt (bigIntToIp n V6 c) = Inl InvalidIPAddressError"
proof -
  let ?d = "bigIntToIp (n AND 0xffffffff) V4 True"
  have r: "bigIntToIp n V6 c = CHR '':'' # ('':ffff:'' @ ?d)" using assms by simp
  have "CHR ''.'' \<in> set ?d" by (rule v4_render_dot)
  then show "CHR ''.'' \<in> set (bigIntToIp n V6 c)" unfolding r by simp
  have "CHR '':'' \<noteq> CHR ''.''" by simp
  then obtain p ps where s: "split CHR ''.'' (CHR '':'' # ('':ffff:'' @ ?d)) = (CHR '':'' # p) # ps"
    using split_first_part by blast
  have "\<not> all_digits (CHR '':'' # p)"
    by (simp add: all_digits_def is_digit_def less_eq_char_def)
  then show "ipv4ToBigInt (bigIntToIp n V6 c) = Inl InvalidIPAddressError"
    unfolding r ipv4ToBigInt_def Let_def s by simp
qed

lemma mapped_range:
  assumes "drop_bit 32 n = (0xffff::int)"
  shows "0 \<le> n \<and> n < 2 ^ 128"
proof -
  have d: "n div 4294967296 = 65535" using assms by (simp add: drop_bit_eq_div)
  have "n = n div 4294967296 * 4294967296 + n mod 4294967296" by simp
  moreover have "0 \<le> n mod 4294967296" "n mod 4294967296 < 4294967296" by simp_all
  ultimately have "0 \<le> n \<and> n < 340282366920938463463374607431768211456"
    using d by linarith
  then show ?thesis by simp
qed

text \<open>
  Claim C8. Parsing the rendering of an integer in range gives the integer back when the
  text is parsed as the version it was rendered for, and also under automatic version
  detection for IPv4 and for every IPv6 address outside the IPv4-mapped range. For the
  \<open>2^32\<close> integers of the mapped range the round trip as the claim states it fails:
  the rendering \<open>::ffff:a.b.c.d\<close> contains a dot, \<open>fastIpVersion\<close> answers 4, and
  \<open>ipToBigInt\<close> raises \<open>InvalidIPAddressError\<close>, for both values of the compress flag.
\<close>

theorem C8_round_trip_version_detection:
  "(0 \<le> n \<and> n < 2 ^ 32 \<longrightarrow>
      ipToBigInt (bigIntToIp n V4 c) None = Inr n
      \<and> ipToBigInt (bigIntToIp n V4 c) (Some V4) = Inr n)
   \<and> (0 \<le> n \<and> n < 2 ^ 128 \<longrightarrow> ipToBigInt (bigIntToIp n V6 c) (Some V6) = Inr n)
   \<and> (0 \<le> n \<and> n < 2 ^ 128 \<and> drop_bit 32 n \<noteq> 0xffff \<longrightarrow>
      ipToBigInt (bigIntToIp n V6 c) None = Inr n)
   \<and> (drop_bit 32 n = 0xffff \<longrightarrow>
      0 \<le> n \<and> n < 2 ^ 128
      \<and> ipToBigInt (bigIntToIp n V6 c) None = Inl InvalidIPAddressError)"
proof (intro conjI impI)
  assume a: "0 \<le> n \<and> n < 2 ^ 32"
  then have m: "n mod 4294967296 = n" by simp
  show "ipToBigInt (bigIntToIp n V4 c) (Some V4) = Inr n"
    using m ipv4_render_parse[of n c] by (simp add: ipToBigInt_def del: bigIntToIp.simps)
  have "fastIpVersion (bigIntToIp n V4 c) = Inr V4"
    using v4_render_dot[of n c] by (simp add: fastIpVersion_def includes_char_def del: bigIntToIp.simps)
  then show "ipToBigInt (bigIntToIp n V4 c) None = Inr n"
    using m ipv4_render_parse[of n c] by (simp add: ipToBigInt_def del: bigIntToIp.simps)
next
  assume "0 \<le> n \<and> n < 2 ^ 128"
  then have "n mod 2 ^ 128 = n" by simp
  then show "ipToBigInt (bigIntToIp n V6 c) (Some V6) = Inr n"
    using ipv6_render_parse[of n c] by (simp add: ipToBigInt_def del: bigIntToIp.simps)
next
  assume a: "0 \<le> n \<and> n < 2 ^ 128 \<and> drop_bit 32 n \<noteq> 0xffff"
  then have m: "n mod 2 ^ 128 = n" by simp
  have u: "drop_bit 32 n \<noteq> (0xffff::int)" using a by simp
  have "fastIpVersion (bigIntToIp n V6 c) = Inr V6"
    using v6_render_chars[OF u, of c]
    by (simp add: fastIpVersion_def includes_char_def del: bigIntToIp.simps)
  then show "ipToBigInt (bigIntToIp n V6 c) None = Inr n"
    using m ipv6_render_parse[of n c] by (simp add: ipToBigInt_def del: bigIntToIp.simps)
next
  assume u: "drop_bit 32 n = 0xffff"
  show "0 \<le> n" using mapped_range[OF u] by simp
  show "n < 2 ^ 128" using mapped_range[OF u] by simp
  have "fastIpVersion (bigIntToIp n V6 c) = Inr V4"
    using mapped_render_not_ipv4(1)[OF u, of c]
    by (simp add: fastIpVersion_def includes_char_def del: bigIntToIp.simps)
  then show "ipToBigInt (bigIntToIp n V6 c) None = Inl InvalidIPAddressError"
    using mapped_render_not_ipv4(2)[OF u, of c] by (simp add: ipToBigInt_def del: bigIntToIp.simps)
qed

theorem C8_round_trip_version_detection_witness:
  "drop_bit 32 (281473913979137::int) = 0xffff
   \<and> bigIntToIp 281473913979137 V6 True = ''::ffff:192.168.1.1''
   \<and> bigIntToIp 281473913979137 V6 False = ''::ffff:192.168.1.1''
   \<and> ipToBigInt ''::ffff:192.168.1.1'' None = Inl InvalidIPAddressError
   \<and> ipToBigInt ''::ffff:192.168.1.1'' (Some V6) = Inr 281473913979137
   \<and> ipToBigInt (bigIntToIp 3232235777 V4 True) None = Inr 3232235777"
proof -
  have h: "drop_bit 32 (281473913979137::int) = 0xffff" by (simp add: drop_bit_eq_div)
  have t: "bigIntToIp 281473913979137 V6 True = ''::ffff:192.168.1.1''"
    by (simp add: render_eval)
  have f: "bigIntToIp 281473913979137 V6 False = ''::ffff:192.168.1.1''"
    by (simp add: render_eval)
  have g: "(0::int) \<le> 3232235777 \<and> (3232235777::int) < 2 ^ 32" by simp
  have 1: "ipToBigInt ''::ffff:192.168.1.1'' None = Inl InvalidIPAddressError"
    using h C8_round_trip_version_detection[of 281473913979137 True] unfolding t by blast
  have 2: "ipToBigInt ''::ffff:192.168.1.1'' (Some V6) = Inr 281473913979137"
    using h C8_round_trip_version_detection[of 281473913979137 True] unfolding t by blast
  have 3: "ipToBigInt (bigIntToIp 3232235777 V4 True) None = Inr 3232235777"
    using g C8_round_trip_version_detection[of 3232235777 True] by blast
  show ?thesis using h t f 1 2 3 by blast
qed

section \<open>Zone identifiers\<close>

lemma find_unique:
  assumes "x \<in> set xs" "P x" "\<forall>y\<in>set xs. P y \<longrightarrow> y = x"
  shows "find P xs = Some x"
  using assms
proof (induction xs)
  case Nil
  then show ?case by simp
next
  case (Cons a xs)
  show ?case
  proof (cases "P a")
    case True
    then have "a = x" using Cons.prems(3) by simp
    then show ?thesis using True by simp
  next
    case False
    then have "x \<noteq> a" using Cons.prems(2) by blast
    then have "x \<in> set xs" using Cons.prems(1) by simp
    moreover have "\<forall>y\<in>set xs. P y \<longrightarrow> y = x" using Cons.prems(3) by simp
    ultimately have "find P xs = Some x" using Cons.IH Cons.prems(2) by blast
    then show ?thesis using False by simp
  qed
qed

lemma zone_match_at_strip:
  assumes "s \<noteq> []" "\<forall>c\<in>set s. c \<noteq> CHR ''%'' \<and> \<not> is_line_terminator c"
    and "z \<noteq> []" "CHR ''%'' \<notin> set z" "\<not> is_line_terminator (hd z)"
  shows "zone_match_at (s @ CHR ''%'' # z) = Some s"
proof -
  define ip where "ip = s @ CHR ''%'' # z"
  define n where "n = length (takeWhile (\<lambda>c. \<not> is_line_terminator c) ip)"
  define P where "P = (\<lambda>j. case drop j ip of p # c # rest \<Rightarrow> p = CHR ''%'' \<and> \<not> is_line_terminator c
                                  | _ \<Rightarrow> False)"
  obtain y ys where z: "z = y # ys" using assms(3) by (cases z) auto
  have ny: "\<not> is_line_terminator y" using assms(5) z by simp
  have np: "\<not> is_line_terminator CHR ''%''" by (simp add: is_line_terminator_def)
  have "takeWhile (\<lambda>c. \<not> is_line_terminator c) ip
        = s @ takeWhile (\<lambda>c. \<not> is_line_terminator c) (CHR ''%'' # z)"
    unfolding ip_def using assms(2) by (intro takeWhile_append2) simp
  then have n: "length s + 2 \<le> n" unfolding n_def using z ny np by simp
  have s1: "1 \<le> length s" using assms(1) by (cases s) simp_all
  have mem: "length s \<in> set (rev [1..<Suc n])" using s1 n by simp
  have dr: "drop (length s) ip = CHR ''%'' # y # ys" unfolding ip_def z by simp
  have here: "P (length s)" unfolding P_def dr using ny by simp
  have uniq: "\<forall>j\<in>set (rev [1..<Suc n]). P j \<longrightarrow> j = length s"
  proof (intro ballI impI)
    fix j assume P: "P j"
    from P obtain c rest where d: "drop j ip = CHR ''%'' # c # rest"
      unfolding P_def by (cases "drop j ip" rule: list.exhaust; simp split: list.splits)
    have "drop j ip \<noteq> []" using d by simp
    then have jl: "j < length ip" by simp
    have "hd (drop j ip) = ip ! j" by (rule hd_drop_conv_nth[OF jl])
    then have at: "ip ! j = CHR ''%''" using d by simp
    show "j = length s"
    proof (rule ccontr)
      assume ne: "j \<noteq> length s"
      show False
      proof (cases "j < length s")
        case True
        then have "ip ! j = s ! j" unfolding ip_def by (simp add: nth_append)
        then have "s ! j = CHR ''%''" using at by simp
        then have "CHR ''%'' \<in> set s" using True nth_mem[of j s] by simp
        then show False using assms(2) by blast
      next
        case False
        then have gt: "length s < j" using ne by simp
        define i where "i = j - length s - 1"
        have j: "j = length s + Suc i" unfolding i_def using gt by simp
        have "ip ! j = (CHR ''%'' # z) ! Suc i" unfolding ip_def j by (simp only: nth_append_length_plus)
        then have zi: "z ! i = CHR ''%''" using at by simp
        have "i < length z" using jl unfolding ip_def j by simp
        then have "CHR ''%'' \<in> set z" using zi nth_mem[of i z] by simp
        then show False using assms(4) by blast
      qed
    qed
  qed
  have f: "find P (rev [1..<Suc n]) = Some (length s)"
    by (rule find_unique[OF mem here uniq])
  have t: "take (length s) ip = s" unfolding ip_def by simp
  have "zone_match_at ip = map_option (\<lambda>j. take j ip) (find P (rev [1..<Suc n]))"
    unfolding zone_match_at_def Let_def n_def P_def ..
  then show ?thesis unfolding f using t by (simp add: ip_def)
qed

lemma zone_exec_strip:
  assumes "s \<noteq> []" "\<forall>c\<in>set s. c \<noteq> CHR ''%'' \<and> \<not> is_line_terminator c"
    and "z \<noteq> []" "CHR ''%'' \<notin> set z" "\<not> is_line_terminator (hd z)"
  shows "zone_exec (s @ CHR ''%'' # z) = Some s"
proof -
  obtain c cs where c: "s @ CHR ''%'' # z = c # cs" using assms(1) by (cases s) auto
  have "zone_match_at (c # cs) = Some s" using zone_match_at_strip[OF assms] c by simp
  then have "zone_exec (c # cs) = Some s" by simp
  then show ?thesis using c by simp
qed

lemma ipv6ToBigInt_zone:
  assumes "s \<noteq> []" "\<forall>c\<in>set s. c \<noteq> CHR ''%'' \<and> \<not> is_line_terminator c"
    and "z \<noteq> []" "CHR ''%'' \<notin> set z" "\<not> is_line_terminator (hd z)"
  shows "ipv6ToBigInt (s @ CHR ''%'' # z) = ipv6ToBigInt s"
proof -
  have "CHR ''%'' \<notin> set s" using assms(2) by blast
  then show ?thesis
    using zone_exec_strip[OF assms] by (simp add: ipv6ToBigInt_def includes_char_def)
qed

lemma valid_literal_plain:
  assumes "IPv6_isValid s"
  shows "s \<noteq> []" "\<forall>c\<in>set s. c \<noteq> CHR ''%'' \<and> \<not> is_line_terminator c"
proof -
  show "s \<noteq> []" using IPv6_isValid_colon[OF assms] by auto
  have bad: "\<not> (is_hex c \<or> c = CHR '':'' \<or> c = CHR ''.'')"
    if "c = CHR ''%'' \<or> is_line_terminator c" for c
    using that by (auto simp: is_line_terminator_def is_hex_def less_eq_char_def)
  show "\<forall>c\<in>set s. c \<noteq> CHR ''%'' \<and> \<not> is_line_terminator c"
    using IPv6_isValid_chars[OF assms] bad by blast
qed

lemma zone_literal_invalid: "\<not> IPv6_isValid (s @ CHR ''%'' # z)"
proof
  assume "IPv6_isValid (s @ CHR ''%'' # z)"
  then have "is_hex CHR ''%'' \<or> CHR ''%'' = CHR '':'' \<or> CHR ''%'' = CHR ''.''"
    using IPv6_isValid_chars by fastforce
  then show False by (simp add: not_hex_chars)
qed

text \<open>
  On the codec path the zone is stripped: for a literal \<open>s\<close> the IPv6 constructor
  accepts, with value \<open>v\<close>, and a non-empty zone text \<open>z\<close> without \<open>%\<close> that does not
  start with a line terminator, \<open>ipToBigInt\<close> parses \<open>s%z\<close> to \<open>v\<close>. The constructor
  never gets that far, because validation accepts no literal with a \<open>%\<close>.
\<close>

lemma zone_stripped_by_codec:
  assumes "IPv6_new s = Inr (IPv6 v)"
    and "z \<noteq> []" "CHR ''%'' \<notin> set z" "\<not> is_line_terminator (hd z)"
  shows "ipToBigInt (s @ ''%'' @ z) (Some V6) = Inr v"
    and "IPv6_new (s @ ''%'' @ z) = Inl InvalidIPAddressError"
proof -
  have valid: "IPv6_isValid s" using assms(1) by (simp add: IPv6_new_def split: if_splits)
  then have "map_sum id IPv6 (ipv6ToBigInt s) = Inr (IPv6 v)"
    using assms(1) by (simp add: IPv6_new_def ipToBigInt_def)
  then have p: "ipv6ToBigInt s = Inr v" by (cases "ipv6ToBigInt s") auto
  have "ipv6ToBigInt (s @ CHR ''%'' # z) = ipv6ToBigInt s"
    by (rule ipv6ToBigInt_zone[OF valid_literal_plain[OF valid] assms(2,3,4)])
  then show "ipToBigInt (s @ ''%'' @ z) (Some V6) = Inr v"
    using p by (simp add: ipToBigInt_def)
  show "IPv6_new (s @ ''%'' @ z) = Inl InvalidIPAddressError"
    using zone_literal_invalid[of s z] by (simp add: IPv6_new_def)
qed

text \<open>
  Claim C7. The claim does not hold on the code. \<open>ipv6ToBigInt\<close> strips the zone of
  \<open>fe80::1%eth0\<close> and parses the rest to the value of \<open>fe80::1\<close>, but \<open>IPv6.isValid\<close>
  rejects the literal, so the constructor raises \<open>InvalidIPAddressError\<close> before the codec
  is called. On the codec path itself a zone text with a second \<open>%\<close> is cut after the last
  one and fails, and a zone text that starts with a line terminator makes the pattern fail
  and raises a \<open>TypeError\<close>.
\<close>

theorem C7_zone_literal_rejected:
  "IPv6_new ''fe80::1'' = Inr (IPv6 338288524927261089654018896841347694593)
   \<and> ipToBigInt ''fe80::1%eth0'' (Some V6) = Inr 338288524927261089654018896841347694593
   \<and> \<not> IPv6_isValid ''fe80::1%eth0''
   \<and> IPv6_new ''fe80::1%eth0'' = Inl InvalidIPAddressError
   \<and> ipToBigInt ''::1%a%b'' (Some V6) = Inl InvalidIPAddressError
   \<and> ipToBigInt (''::1%'' @ [CHR 0x0A]) (Some V6) = Inl TypeError"
proof -
  have 1: "IPv6_new ''fe80::1'' = Inr (IPv6 338288524927261089654018896841347694593)"
    by (simp add: IPv6_new_def parse_eval rx_eval)
  have z: "''eth0'' \<noteq> []" "CHR ''%'' \<notin> set ''eth0''" "\<not> is_line_terminator (hd ''eth0'')"
    by (simp_all add: is_line_terminator_def)
  have 2: "ipToBigInt ''fe80::1%eth0'' (Some V6) = Inr 338288524927261089654018896841347694593"
    using zone_stripped_by_codec(1)[OF 1 z] by simp
  have 3: "\<not> IPv6_isValid ''fe80::1%eth0''"
    using zone_literal_invalid[of "''fe80::1''" "''eth0''"] by simp
  have 4: "IPv6_new ''fe80::1%eth0'' = Inl InvalidIPAddressError"
    using 3 by (simp add: IPv6_new_def)
  have u: "rev [1..<Suc 7] = [7, 6, 5, 4, 3, 2, 1::nat]" by code_simp
  have m: "zone_match_at ''::1%a%b'' = Some ''::1%a''"
    by (simp add: zone_match_at_def is_line_terminator_def u)
  have 5: "ipToBigInt ''::1%a%b'' (Some V6) = Inl InvalidIPAddressError"
    using m
    by (simp add: ipToBigInt_def ipv6ToBigInt_def includes_char_def expandIPv6Shorthand_def
        rx_eval is_hex_def replicate_unfold)
  have e: "zone_exec (''::1%'' @ [CHR 0x0A]) = None" by code_simp
  have 6: "ipToBigInt (''::1%'' @ [CHR 0x0A]) (Some V6) = Inl TypeError"
    using e by (simp add: ipToBigInt_def ipv6ToBigInt_def includes_char_def)
  show ?thesis using 1 2 3 4 5 6 by blast
qed

theorem C7_zone_literal_rejected_witness:
  "(\<exists>v. IPv6_new ''fe80::1'' = Inr (IPv6 v) \<and> ipToBigInt ''fe80::1%eth0'' (Some V6) = Inr v)
   \<and> (\<forall>a. IPv6_new ''fe80::1%eth0'' \<noteq> Inr a)"
  using C7_zone_literal_rejected by simp

end
